theory Spec2Isabelle
  imports Main "HOL-Library.Sublist" "HOL-Library.List_Lexorder" "HOL-Library.Char_ord"
begin

section \<open>Strings\<close>

text \<open>
  Python \<open>str\<close> values are modelled as \<open>string\<close>, one \<open>char\<close> per code point, for
  text made of ASCII characters: the case mappings and character classes below are
  Python's on the code points 0..127 and leave every other \<open>char\<close> alone.
\<close>

definition code :: "char \<Rightarrow> nat" where
  "code c = of_char c"

definition is_ascii :: "char \<Rightarrow> bool" where
  "is_ascii c = (code c < 128)"

definition ascii_only :: "string \<Rightarrow> bool" where
  "ascii_only s = list_all is_ascii s"

definition is_lower :: "char \<Rightarrow> bool" where
  "is_lower c = (97 \<le> code c \<and> code c \<le> 122)"

definition is_upper :: "char \<Rightarrow> bool" where
  "is_upper c = (65 \<le> code c \<and> code c \<le> 90)"

definition is_cased :: "char \<Rightarrow> bool" where
  "is_cased c = (is_lower c \<or> is_upper c)"

definition to_upper :: "char \<Rightarrow> char" where
  "to_upper c = (if is_lower c then char_of (code c - 32) else c)"

definition to_lower :: "char \<Rightarrow> char" where
  "to_lower c = (if is_upper c then char_of (code c + 32) else c)"

text \<open>\<open>str.upper()\<close> and \<open>str.lower()\<close>.\<close>

definition upper :: "string \<Rightarrow> string" where
  "upper s = map to_upper s"

definition lower :: "string \<Rightarrow> string" where
  "lower s = map to_lower s"

text \<open>
  \<open>str.title()\<close>: a cased character that follows a cased character is lowercased, any
  other cased character is uppercased, and an uncased character is kept and ends the word.
\<close>

fun title_from :: "bool \<Rightarrow> string \<Rightarrow> string" where
  "title_from previous_is_cased [] = []"
| "title_from previous_is_cased (c # cs) =
     (if previous_is_cased then to_lower c else to_upper c) # title_from (is_cased c) cs"

definition title :: "string \<Rightarrow> string" where
  "title s = title_from False s"

section \<open>Extraction engine: dictionary and normalisation\<close>

definition known_makes :: "string list" where
  "known_makes =
     [''FORD'', ''CHEVROLET'', ''CHEVY'', ''DODGE'', ''TOYOTA'', ''HONDA'', ''NISSAN'',
      ''BMW'', ''MERCEDES'', ''AUDI'', ''VOLKSWAGEN'', ''SUBARU'', ''MAZDA'',
      ''HYUNDAI'', ''KIA'', ''JEEP'', ''CHRYSLER'', ''BUICK'', ''CADILLAC'',
      ''ACURA'', ''INFINITI'', ''LEXUS'', ''LINCOLN'', ''VOLVO'', ''SAAB'',
      ''MITSUBISHI'', ''ISUZU'', ''SUZUKI'', ''PONTIAC'', ''OLDSMOBILE'',
      ''SATURN'', ''MERCURY'', ''PLYMOUTH'', ''EAGLE'', ''GEO'']"

text \<open>\<open>AutoPartsDetector._is_known_make\<close>.\<close>

definition is_known_make :: "string \<Rightarrow> bool" where
  "is_known_make make = (upper make \<in> set known_makes)"

text \<open>\<open>AutoPartsDetector._normalize_make\<close>.\<close>

definition normalize_make :: "string \<Rightarrow> string" where
  "normalize_make make =
     (let make_upper = upper make
      in if make_upper = ''CHEVY'' then ''Chevrolet'' else title make)"

text \<open>\<open>AutoPartsDetector._is_valid_make\<close>.\<close>

definition invalid_terms :: "string list" where
  "invalid_terms =
     [''part'', ''parts'', ''auto'', ''car'', ''vehicle'', ''search'', ''catalog'', ''home'']"

definition is_valid_make :: "string \<Rightarrow> bool" where
  "is_valid_make make = (lower make \<notin> set invalid_terms \<and> length make > 1)"

text \<open>A spelling of a word in any letter case: each character is the word's, in either case.\<close>

definition same_letters :: "string \<Rightarrow> string \<Rightarrow> bool" where
  "same_letters v w = list_all2 (\<lambda>c d. c = to_lower d \<or> c = to_upper d) v w"

section \<open>Leaderboard aggregator\<close>

text \<open>
  Whitespace as \<open>str.strip()\<close>, \<open>str.split()\<close> and the pattern \<open>\s\<close> see it on ASCII:
  tab, line feed, vertical tab, form feed, carriage return, the four separators
  \<open>0x1c..0x1f\<close> and the space.
\<close>

definition is_space :: "char \<Rightarrow> bool" where
  "is_space c = ((9 \<le> code c \<and> code c \<le> 13) \<or> (28 \<le> code c \<and> code c \<le> 32))"

text \<open>\<open>str.strip()\<close>.\<close>

definition strip :: "string \<Rightarrow> string" where
  "strip s = rev (dropWhile is_space (rev (dropWhile is_space s)))"

text \<open>\<open>str.split(sep)\<close> for a separator of one character: empty pieces are kept.\<close>

fun split_on :: "char \<Rightarrow> string \<Rightarrow> string list" where
  "split_on sep [] = [[]]"
| "split_on sep (c # cs) =
     (if c = sep then [] # split_on sep cs
      else (case split_on sep cs of
              [] \<Rightarrow> [[c]]
            | w # ws \<Rightarrow> (c # w) # ws))"

text \<open>
  The leaderboard is a Python \<open>dict\<close> from make to \<open>{'count', 'weighted_count'}\<close>. A
  \<open>dict\<close> keeps its keys in insertion order, and the ranking depends on that order, so it
  is an association list: a new key goes to the end, an update keeps the key's place.
\<close>

record entry =
  count :: int
  weighted_count :: int

type_synonym leaderboard = "(string \<times> entry) list"

definition dict_keys :: "('k \<times> 'v) list \<Rightarrow> 'k list" where
  "dict_keys d = map fst d"

definition dict_add :: "'k \<Rightarrow> 'v \<Rightarrow> ('k \<times> 'v) list \<Rightarrow> ('k \<times> 'v) list" where
  "dict_add k v d = d @ [(k, v)]"

definition dict_modify :: "'k \<Rightarrow> ('v \<Rightarrow> 'v) \<Rightarrow> ('k \<times> 'v) list \<Rightarrow> ('k \<times> 'v) list" where
  "dict_modify k f d = map (\<lambda>(k', v). if k' = k then (k', f v) else (k', v)) d"

text \<open>The comprehension \<open>[make.strip() for make in makes_list.split(',') if make.strip()]\<close>.\<close>

definition make_tokens :: "string \<Rightarrow> string list" where
  "make_tokens makes_list =
     map strip (filter (\<lambda>m. strip m \<noteq> []) (split_on CHR '','' makes_list))"

text \<open>One round of the loop \<open>for make in makes\<close>.\<close>

definition tally :: "int \<Rightarrow> leaderboard \<Rightarrow> string \<Rightarrow> leaderboard" where
  "tally quantity lb m =
     (let lb1 = (if m \<notin> set (dict_keys lb)
                 then dict_add m \<lparr>count = 0, weighted_count = 0\<rparr> lb else lb);
          lb2 = dict_modify m (\<lambda>e. e\<lparr>count := count e + 1\<rparr>) lb1
      in dict_modify m (\<lambda>e. e\<lparr>weighted_count := weighted_count e + quantity\<rparr>) lb2)"

text \<open>\<open>ProcessingState.update_leaderboard\<close>. An empty \<open>makes_list\<close> is falsy.\<close>

definition update_leaderboard :: "string \<Rightarrow> int \<Rightarrow> leaderboard \<Rightarrow> leaderboard" where
  "update_leaderboard makes_list quantity lb =
     (if makes_list \<noteq> [] \<and> makes_list \<noteq> ''NOT_FOUND''
      then foldl (tally quantity) lb (make_tokens makes_list)
      else lb)"

text \<open>
  \<open>sorted(items, key=..., reverse=True)\<close>: Python's sort is stable, and with
  \<open>reverse=True\<close> items of equal key still keep their original order. Insertion from the
  right, each item going in front of the first item whose key is not greater, does that.
\<close>

fun insert_desc :: "('a \<Rightarrow> int) \<Rightarrow> 'a \<Rightarrow> 'a list \<Rightarrow> 'a list" where
  "insert_desc key x [] = [x]"
| "insert_desc key x (y # ys) =
     (if key x < key y then y # insert_desc key x ys else x # y # ys)"

definition sorted_reverse :: "('a \<Rightarrow> int) \<Rightarrow> 'a list \<Rightarrow> 'a list" where
  "sorted_reverse key xs = foldr (insert_desc key) xs []"

text \<open>The slice \<open>xs[:n]\<close>: a negative \<open>n\<close> counts from the end.\<close>

definition slice_to :: "int \<Rightarrow> 'a list \<Rightarrow> 'a list" where
  "slice_to n xs =
     (if 0 \<le> n then take (nat n) xs else take (length xs - nat (- n)) xs)"

text \<open>\<open>ProcessingState.get_top_makes\<close>.\<close>

definition get_top_makes :: "int \<Rightarrow> leaderboard \<Rightarrow> (string \<times> entry) list" where
  "get_top_makes limit lb =
     (let sorted_makes = sorted_reverse (\<lambda>x. weighted_count (snd x)) lb
      in slice_to limit sorted_makes)"

text \<open>Reading the tallies of a make, 0 when it has no entry; its place in a list.\<close>

definition count_of :: "leaderboard \<Rightarrow> string \<Rightarrow> int" where
  "count_of lb m = (case map_of lb m of None \<Rightarrow> 0 | Some e \<Rightarrow> count e)"

definition weighted_of :: "leaderboard \<Rightarrow> string \<Rightarrow> int" where
  "weighted_of lb m = (case map_of lb m of None \<Rightarrow> 0 | Some e \<Rightarrow> weighted_count e)"

fun place :: "'a \<Rightarrow> 'a list \<Rightarrow> nat" where
  "place x [] = 0"
| "place x (y # ys) = (if x = y then 0 else Suc (place x ys))"

section \<open>Extraction engine: patterns\<close>

text \<open>The classes \<open>\d\<close> and \<open>\w\<close> on ASCII.\<close>

definition is_digit :: "char \<Rightarrow> bool" where
  "is_digit c = (48 \<le> code c \<and> code c \<le> 57)"

definition is_word :: "char \<Rightarrow> bool" where
  "is_word c = (is_lower c \<or> is_upper c \<or> is_digit c \<or> c = CHR ''_'')"

text \<open>\<open>str.split()\<close>: the maximal runs of characters that are not whitespace.\<close>

fun words_from :: "string \<Rightarrow> string \<Rightarrow> string list" where
  "words_from cur [] = (if cur = [] then [] else [cur])"
| "words_from cur (c # cs) =
     (if is_space c then (if cur = [] then words_from [] cs else cur # words_from [] cs)
      else words_from (cur @ [c]) cs)"

definition split_ws :: "string \<Rightarrow> string list" where
  "split_ws s = words_from [] s"

text \<open>
  The part of Python's \<open>re\<close> syntax that the patterns of \<open>_extract_makes_from_popup\<close> use:
  one character of a class, sequence, alternation, \<open>?\<close>, a greedy repetition of a class
  with a minimum (\<open>*\<close>, \<open>+\<close>, \<open>{3,}\<close>), \<open>\b\<close> and a capturing group.
\<close>

datatype rx =
  Chr "char \<Rightarrow> bool"
| Seq rx rx
| Alt rx rx
| Opt rx
| Rep nat "char \<Rightarrow> bool"
| Boundary
| Group rx

text \<open>
  A position of the matcher: the character before it, the text from it on, and the groups
  captured so far. \<open>matches r m\<close> lists the positions after a match of \<open>r\<close> from \<open>m\<close> in
  the order in which the backtracking matcher tries them: alternatives left to right,
  longer repetitions first.
\<close>

type_synonym mstate = "char option \<times> string \<times> string list"

fun rep_states :: "nat \<Rightarrow> (char \<Rightarrow> bool) \<Rightarrow> char option \<Rightarrow> string \<Rightarrow> string list \<Rightarrow> mstate list" where
  "rep_states n P prev [] caps = (if n = 0 then [(prev, [], caps)] else [])"
| "rep_states n P prev (c # cs) caps =
     (if P c then rep_states (n - 1) P (Some c) cs caps else [])
     @ (if n = 0 then [(prev, c # cs, caps)] else [])"

definition at_boundary :: "char option \<Rightarrow> string \<Rightarrow> bool" where
  "at_boundary prev rest =
     ((case prev of None \<Rightarrow> False | Some c \<Rightarrow> is_word c)
      \<noteq> (case rest of [] \<Rightarrow> False | c # cs \<Rightarrow> is_word c))"

fun matches :: "rx \<Rightarrow> mstate \<Rightarrow> mstate list" where
  "matches (Chr P) (prev, rest, caps) =
     (case rest of [] \<Rightarrow> [] | c # cs \<Rightarrow> if P c then [(Some c, cs, caps)] else [])"
| "matches (Seq a b) m = concat (map (matches b) (matches a m))"
| "matches (Alt a b) m = matches a m @ matches b m"
| "matches (Opt a) m = matches a m @ [m]"
| "matches (Rep n P) (prev, rest, caps) = rep_states n P prev rest caps"
| "matches Boundary (prev, rest, caps) = (if at_boundary prev rest then [(prev, rest, caps)] else [])"
| "matches (Group a) (prev, rest, caps) =
     map (\<lambda>(prev', rest', caps'). (prev', rest', caps' @ [take (length rest - length rest') rest]))
       (matches a (prev, rest, caps))"

text \<open>\<open>re.search\<close>: the groups of the first match at the leftmost position that has one.\<close>

fun search_from :: "rx \<Rightarrow> char option \<Rightarrow> string \<Rightarrow> string list option" where
  "search_from r prev [] =
     (case matches r (prev, [], []) of [] \<Rightarrow> None | (p, rest, caps) # ms \<Rightarrow> Some caps)"
| "search_from r prev (c # cs) =
     (case matches r (prev, c # cs, []) of
        [] \<Rightarrow> search_from r (Some c) cs
      | (p, rest, caps) # ms \<Rightarrow> Some caps)"

definition re_search :: "rx \<Rightarrow> string \<Rightarrow> string list option" where
  "re_search r s = search_from r None s"

text \<open>
  \<open>re.findall\<close>: the groups of the successive matches, each search going on where the
  last match ended (one character further after an empty match).
\<close>

function findall_from :: "rx \<Rightarrow> char option \<Rightarrow> string \<Rightarrow> string list list" where
  "findall_from r prev rest =
     (case matches r (prev, rest, []) of
        [] \<Rightarrow> (case rest of [] \<Rightarrow> [] | c # cs \<Rightarrow> findall_from r (Some c) cs)
      | (prev', rest', caps) # ms \<Rightarrow>
          caps # (if length rest' < length rest then findall_from r prev' rest'
                  else (case rest of [] \<Rightarrow> [] | c # cs \<Rightarrow> findall_from r (Some c) cs)))"
  by pat_completeness auto
termination
  by (relation "measure (\<lambda>(r, prev, rest). length rest)") auto

definition re_findall :: "rx \<Rightarrow> string \<Rightarrow> string list list" where
  "re_findall r s = findall_from r None s"

text \<open>A literal string, and the four patterns of the cell loop.\<close>

fun lit :: "string \<Rightarrow> rx" where
  "lit [] = Opt (Chr (\<lambda>c. False))"
| "lit [c] = Chr (\<lambda>x. x = c)"
| "lit (c # cs) = Seq (Chr (\<lambda>x. x = c)) (lit cs)"

definition year_make_rx :: rx where
  "year_make_rx =
     Seq Boundary
       (Seq (Group (Alt (lit ''19'') (lit ''20'')))
          (Seq (Chr is_digit)
             (Seq (Chr is_digit)
                (Seq (Rep 1 (\<lambda>c. c = CHR ''-'' \<or> is_space c))
                   (Group (Seq (Chr is_upper) (Rep 1 is_upper)))))))"

definition fits_rx :: rx where
  "fits_rx =
     Seq (Alt (Seq (lit ''fit'') (Opt (lit ''s''))) (Alt (lit ''compatible'') (lit ''for'')))
       (Seq (Rep 0 (\<lambda>c. c = CHR '':'' \<or> c = CHR ''.'' \<or> is_space c))
          (Group (Rep 1 (\<lambda>c. is_upper c \<or> is_space c \<or> c = CHR '',''))))"

definition token_rx :: rx where
  "token_rx = Seq Boundary (Seq (Group (Rep 3 is_upper)) Boundary)"

text \<open>
  The step \<open>if self._is_known_make(make): makes.add(self._normalize_make(make))\<close>; the
  additions to the set \<open>makes\<close> are listed in order.
\<close>

definition known_normalized :: "string list \<Rightarrow> string list" where
  "known_normalized candidates = map normalize_make (filter is_known_make candidates)"

text \<open>
  The body of the loop over the cells of a row in \<open>_extract_makes_from_popup\<close>, for the
  text of one \<open>td\<close>: the three methods on the upper-cased text of a non-empty cell.
\<close>

definition extract_from_cell :: "string \<Rightarrow> string list" where
  "extract_from_cell cell_text =
     (let text = strip cell_text
      in if text = [] then []
         else
           (let text_upper = upper text;
                year_make_matches = re_findall year_make_rx text_upper;
                method1 = known_normalized (map (\<lambda>groups. groups ! 1) year_make_matches);
                method2 = known_normalized (map (filter is_word) (split_ws text_upper));
                method3 = (case re_search fits_rx text_upper of
                             None \<Rightarrow> []
                           | Some groups \<Rightarrow>
                               known_normalized
                                 (map (\<lambda>groups. groups ! 0) (re_findall token_rx (groups ! 0))))
            in method1 @ method2 @ method3))"

text \<open>
  The buyers guide popup as \<open>BeautifulSoup\<close> gives it: its text and, for each \<open>tr\<close>, the
  texts of its \<open>td\<close> cells. \<open>_extract_makes_from_popup\<close> looks at the first 10 rows and
  the first 5 cells of each.
\<close>

record popup =
  popup_text :: string
  table_rows :: "string list list"

definition extract_makes_from_popup :: "popup option \<Rightarrow> string list" where
  "extract_makes_from_popup found =
     (case found of
        None \<Rightarrow> []
      | Some p \<Rightarrow>
          (let text = strip (popup_text p)
           in if sublist ''no applications found'' (lower text) then []
              else
                (if table_rows p = []
                 then known_normalized (map (filter is_word) (split_ws (upper text)))
                 else [])
                @ concat (map (\<lambda>cells. concat (map extract_from_cell (take 5 cells)))
                            (take 10 (table_rows p)))))"

text \<open>A popup whose table has the single cell \<open>Fits:FORD,HONDA\<close>.\<close>

definition fits_popup :: popup where
  "fits_popup = \<lparr>popup_text = ''Fits:FORD,HONDA'', table_rows = [[''Fits:FORD,HONDA'']]\<rparr>"

section \<open>Progress broadcaster\<close>

text \<open>
  \<open>ConnectionManager\<close>: the list of registered connections, and \<open>state.connected_clients\<close>.
  What the transport has accepted for each observer is kept in \<open>delivered\<close>, in the order of
  the sends. Whether \<open>send_text\<close> raises for a connection is not decided by this code, so
  \<open>broadcast\<close> takes it as the predicate \<open>fails\<close>.
\<close>

record ('c, 'm) manager =
  active_connections :: "'c list"
  connected_clients :: "'c set"
  delivered :: "'c \<Rightarrow> 'm list"

text \<open>\<open>ConnectionManager.connect\<close>, after the handshake.\<close>

definition connect :: "'c \<Rightarrow> ('c, 'm) manager \<Rightarrow> ('c, 'm) manager" where
  "connect websocket mgr =
     mgr\<lparr>active_connections := active_connections mgr @ [websocket],
         connected_clients := insert websocket (connected_clients mgr)\<rparr>"

text \<open>\<open>ConnectionManager.disconnect\<close>.\<close>

definition disconnect :: "'c \<Rightarrow> ('c, 'm) manager \<Rightarrow> ('c, 'm) manager" where
  "disconnect websocket mgr =
     (let mgr1 = (if websocket \<in> set (active_connections mgr)
                  then mgr\<lparr>active_connections := remove1 websocket (active_connections mgr)\<rparr>
                  else mgr)
      in if websocket \<in> connected_clients mgr1
         then mgr1\<lparr>connected_clients := connected_clients mgr1 - {websocket}\<rparr>
         else mgr1)"

text \<open>
  \<open>broadcast\<close> is a coroutine: at every \<open>await connection.send_text(...)\<close> the event loop
  may run the connection handlers \<open>websocket_endpoint\<close>, each of which registers its
  socket with \<open>connect\<close> when it starts and removes it with \<open>disconnect\<close> in its
  \<open>finally\<close> block when the peer has gone. The handler steps that run during one send
  are a list of such calls.
\<close>

datatype 'c handler_step = Connects 'c | Disconnects 'c

fun handler :: "'c handler_step \<Rightarrow> ('c, 'm) manager \<Rightarrow> ('c, 'm) manager" where
  "handler (Connects websocket) mgr = connect websocket mgr"
| "handler (Disconnects websocket) mgr = disconnect websocket mgr"

text \<open>
  The body of the loop of \<open>broadcast\<close>: the send is awaited, the handler steps scheduled
  during it run, and a send that raises is caught and the connection noted in
  \<open>disconnected\<close>; nothing is raised further.
\<close>

definition try_send ::
  "('c \<Rightarrow> bool) \<Rightarrow> 'c \<Rightarrow> 'm \<Rightarrow> 'c handler_step list \<Rightarrow> 'c list \<times> ('c, 'm) manager
     \<Rightarrow> 'c list \<times> ('c, 'm) manager" where
  "try_send fails connection message steps w =
     (case w of (disconnected, mgr) \<Rightarrow>
        (let mgr1 = foldl (\<lambda>m a. handler a m) mgr steps
         in if fails connection then (disconnected @ [connection], mgr1)
            else (disconnected,
                  mgr1\<lparr>delivered := (delivered mgr1)
                          (connection := delivered mgr1 connection @ [message])\<rparr>)))"

text \<open>
  \<open>for connection in self.active_connections\<close>: the loop runs over the registry itself,
  not over a copy. Python's list iterator keeps a position \<open>idx\<close>; each round it reads the
  element at \<open>idx\<close> of the list as it is then, and it ends when \<open>idx\<close> has reached the
  length the list has then. The schedule gives the handler steps of each send in turn;
  when it is used up no handler runs any more.
\<close>

function send_loop ::
  "('c \<Rightarrow> bool) \<Rightarrow> 'c handler_step list list \<Rightarrow> 'm \<Rightarrow> nat \<Rightarrow> 'c list \<times> ('c, 'm) manager
     \<Rightarrow> 'c list \<times> ('c, 'm) manager"
where
  "send_loop fails [] message idx w =
     (if idx < length (active_connections (snd w))
      then send_loop fails [] message (idx + 1)
             (try_send fails (active_connections (snd w) ! idx) message [] w)
      else w)"
| "send_loop fails (steps # sched) message idx w =
     (if idx < length (active_connections (snd w))
      then send_loop fails sched message (idx + 1)
             (try_send fails (active_connections (snd w) ! idx) message steps w)
      else w)"
  by pat_completeness auto
termination
  by (relation "measures [\<lambda>(fails, sched, message, idx, w). length sched,
                          \<lambda>(fails, sched, message, idx, w).
                             length (active_connections (snd w)) - idx]")
     (auto simp: try_send_def split: prod.splits)

text \<open>\<open>ConnectionManager.broadcast\<close>.\<close>

definition broadcast ::
  "('c \<Rightarrow> bool) \<Rightarrow> 'c handler_step list list \<Rightarrow> 'm \<Rightarrow> ('c, 'm) manager \<Rightarrow> ('c, 'm) manager"
where
  "broadcast fails sched message mgr =
     (if active_connections mgr = [] then mgr
      else (case send_loop fails sched message 0 ([], mgr) of
              (disconnected, mgr1) \<Rightarrow> foldl (\<lambda>m conn. disconnect conn m) mgr1 disconnected))"

text \<open>
  Three registered observers 1, 2 and 3 with nothing received yet. In \<open>broken_first\<close> the
  connection of observer 1 is broken: the send to it raises, and while that send is awaited
  its own handler runs \<open>disconnect\<close>. In \<open>closed_first\<close> the send to observer 1 still goes
  through, and its handler runs \<open>disconnect\<close> during it.
\<close>

definition three_observers :: "(nat, string) manager" where
  "three_observers =
     \<lparr>active_connections = [1, 2, 3], connected_clients = {1, 2, 3}, delivered = (\<lambda>c. [])\<rparr>"

definition broken_first :: "(nat, string) manager" where
  "broken_first = broadcast (\<lambda>c. c = 1) [[Disconnects 1]] ''result'' three_observers"

definition closed_first :: "(nat, string) manager" where
  "closed_first = broadcast (\<lambda>c. False) [[Disconnects 1]] ''result'' three_observers"

section \<open>Session state machine\<close>

text \<open>
  A part record as \<open>categorize_parts\<close> builds it. The two prices are carried through
  unchanged and never computed with; they are integers here.
\<close>

record part =
  index :: int
  item_num :: string
  part_number :: string
  description :: string
  qty :: int
  unit_retail :: int
  ext_retail :: int

text \<open>An EnrichedResult: the copy of the part with \<open>makes\<close>, \<open>source\<close> and \<open>category\<close>.\<close>

record enriched = part +
  makes :: string
  source :: string
  category :: string

record parts_data =
  automotive :: "part list"
  tools :: "part list"
  unknown :: "part list"

text \<open>
  The Selenium driver of the detector: not started (\<open>self.driver is None\<close>), started, or
  quit by \<open>stop_processing\<close> while the attribute still holds it.
\<close>

datatype driver_status = NoDriver | Live | Dead

datatype fault = CheckpointWriteFailed | HistoryWriteFailed | NoDetectorFound

text \<open>The \<open>session_data\<close> that \<open>save_session\<close> writes, without the timestamp.\<close>

record checkpoint =
  ck_session_id :: string
  ck_parts_data :: "parts_data option"
  ck_total_parts :: nat
  ck_processed_count :: nat
  ck_results :: "enriched list"
  ck_start_index :: int
  ck_end_index :: int
  ck_make_leaderboard :: leaderboard

text \<open>
  \<open>ProcessingState\<close>, the global \<open>state\<close>. \<open>detector\<close> is \<open>None\<close> while \<open>state.detector\<close>
  is, and otherwise tells the detector's driver. The \<open>sessions\<close> directory is
  \<open>session_files\<close>, newest write first; \<open>history_files\<close> stands for \<open>state.history\<close>.
\<close>

record pstate =
  is_processing :: bool
  current_session_id :: "string option"
  detector :: "driver_status option"
  parts_data :: "parts_data option"
  total_parts :: nat
  processed_count :: nat
  results :: "enriched list"
  start_index :: int
  end_index :: int
  error_message :: "fault option"
  should_stop :: bool
  make_leaderboard :: leaderboard
  session_files :: "(string \<times> checkpoint) list"
  history_files :: "string list"

text \<open>\<open>sep.join(xs)\<close>.\<close>

fun join :: "string \<Rightarrow> string list \<Rightarrow> string" where
  "join sep [] = []"
| "join sep [x] = x"
| "join sep (x # y # ys) = x @ sep @ join sep (y # ys)"

text \<open>The slice \<open>xs[a:b]\<close> with Python's clamping of both ends.\<close>

definition slice :: "int \<Rightarrow> int \<Rightarrow> 'a list \<Rightarrow> 'a list" where
  "slice a b xs =
     (let n = int (length xs);
          lo = (if a < 0 then max 0 (n + a) else min a n);
          hi = (if b < 0 then max 0 (n + b) else min b n)
      in take (nat (hi - lo)) (drop (nat lo) xs))"

text \<open>
  The worker is a coroutine on a single-threaded event loop: another request handler can
  run only while the worker awaits, which it does at the two \<open>progress_callback\<close> calls of
  each record, before the lookup (\<open>AtProgress\<close>) and after the result is stored
  (\<open>AtResult\<close>). The lookup itself blocks the loop.
\<close>

datatype phase = AtProgress | AtResult

text \<open>
  The messages handed to \<open>manager.broadcast\<close>: progress (current index, reported processed
  count), result (index, result), stopped, completed, error.
\<close>

datatype event =
  ProgressEvent int nat
| ResultEvent int enriched
| StoppedEvent nat
| CompletedEvent nat
| ErrorEvent fault

text \<open>
  The state together with the trace of the run: each broadcast event with the state that
  a status query would see while that event is being sent.
\<close>

type_synonym world = "pstate \<times> (event \<times> pstate) list"

text \<open>
  What the code does not decide: what RockAuto answers for a part when the lookup runs
  with a usable browser (\<open>lookup\<close>), at which await a Stop request is handled
  (\<open>stop_at\<close>: record number in the batch and phase), whether the checkpoint write of a
  state with a given processed count raises (\<open>save_fails\<close>), whether the history write
  raises, and whether \<open>from backend.main import state\<close> in \<open>search_rockauto\<close> yields
  the running \<open>state\<close> (\<open>state_visible\<close>).
\<close>

record env =
  lookup :: "part \<Rightarrow> string list option"
  stop_at :: "(nat \<times> phase) option"
  save_fails :: "nat \<Rightarrow> bool"
  history_fails :: bool
  state_visible :: bool

text \<open>The \<open>HTTPException\<close>s of the endpoints, by cause.\<close>

datatype http_error =
  AlreadyInProgress | NoDataLoaded | InvalidStartIndex | InvalidRange | InvalidEndIndex
| SessionNotFound | SessionAlreadyCompleted | InternalError

record processing_request =
  req_start_index :: int
  req_end_index :: "int option"
  is_test :: bool

text \<open>\<open>ProcessingState.save_session\<close>: no write without a session id; a failing write raises.\<close>

definition snapshot :: "string \<Rightarrow> pstate \<Rightarrow> checkpoint" where
  "snapshot sid st =
     \<lparr>ck_session_id = sid, ck_parts_data = parts_data st, ck_total_parts = total_parts st,
      ck_processed_count = processed_count st, ck_results = results st,
      ck_start_index = start_index st, ck_end_index = end_index st,
      ck_make_leaderboard = make_leaderboard st\<rparr>"

definition save_session :: "env \<Rightarrow> pstate \<Rightarrow> fault + pstate" where
  "save_session env st =
     (case current_session_id st of
        None \<Rightarrow> Inr st
      | Some sid \<Rightarrow>
          if sid = [] then Inr st
          else if save_fails env (processed_count st) then Inl CheckpointWriteFailed
          else Inr (st\<lparr>session_files := (sid, snapshot sid st) # session_files st\<rparr>))"

text \<open>\<open>ProcessingState.load_session\<close>.\<close>

definition load_session :: "string \<Rightarrow> pstate \<Rightarrow> bool \<times> pstate" where
  "load_session session_id st =
     (case map_of (session_files st) session_id of
        None \<Rightarrow> (False, st)
      | Some ck \<Rightarrow>
          (True, st\<lparr>current_session_id := Some (ck_session_id ck),
                    parts_data := ck_parts_data ck,
                    total_parts := ck_total_parts ck,
                    processed_count := ck_processed_count ck,
                    results := ck_results ck,
                    start_index := ck_start_index ck,
                    end_index := ck_end_index ck,
                    make_leaderboard := ck_make_leaderboard ck\<rparr>))"

text \<open>\<open>ProcessingState.save_to_history\<close>, as far as the state goes.\<close>

definition save_to_history :: "env \<Rightarrow> pstate \<Rightarrow> fault + pstate" where
  "save_to_history env st =
     (case current_session_id st of
        None \<Rightarrow> Inr st
      | Some sid \<Rightarrow>
          if results st = [] \<or> sid = [] then Inr st
          else if history_fails env then Inl HistoryWriteFailed
          else Inr (st\<lparr>history_files := take 50 (sid # history_files st)\<rparr>))"

text \<open>
  The result record of \<open>process_parts_batch_async\<close>: \<open>part.copy()\<close> with the makes joined
  from \<open>sorted(set(makes))\<close>, or \<open>NOT_FOUND\<close> when the lookup returned nothing.
\<close>

definition with_makes :: "part \<Rightarrow> string \<Rightarrow> string \<Rightarrow> enriched" where
  "with_makes p found_makes src =
     \<lparr>index = index p, item_num = item_num p, part_number = part_number p,
      description = description p, qty = qty p, unit_retail = unit_retail p,
      ext_retail = ext_retail p,
      makes = found_makes, source = src, category = ''Automotive''\<rparr>"

definition enrich :: "part \<Rightarrow> string list option \<Rightarrow> enriched" where
  "enrich p found =
     (case found of
        None \<Rightarrow> with_makes p ''NOT_FOUND'' ''NONE''
      | Some ms \<Rightarrow>
          if ms \<noteq> [] then with_makes p (join '', '' (sort (remdups ms))) ''RockAuto''
          else with_makes p ''NOT_FOUND'' ''NONE'')"

text \<open>
  \<open>AutoPartsDetector.search_rockauto\<close>, as the worker sees it: it returns \<open>None\<close> at once
  when it can see the stop flag set; on a driver that was quit, \<open>driver.get\<close> raises and
  the handler returns \<open>None\<close>; otherwise the browser is started if need be (it is taken to
  start) and the lookup gives its answer.
\<close>

definition search_rockauto :: "env \<Rightarrow> part \<Rightarrow> pstate \<Rightarrow> string list option \<times> pstate" where
  "search_rockauto env p st =
     (if state_visible env \<and> should_stop st then (None, st)
      else if detector st = Some Dead then (None, st)
      else (lookup env p, st\<lparr>detector := Some Live\<rparr>))"

text \<open>\<open>AutoPartsDetector._close_browser\<close>.\<close>

definition close_browser :: "pstate \<Rightarrow> pstate" where
  "close_browser st =
     (case detector st of
        Some Live \<Rightarrow> st\<lparr>detector := Some NoDriver\<rparr>
      | Some Dead \<Rightarrow> st\<lparr>detector := Some NoDriver\<rparr>
      | _ \<Rightarrow> st)"

text \<open>
  \<open>stop_processing\<close> up to its \<open>await asyncio.sleep(1)\<close>: the flag is set and a started
  browser is quit. \<open>stop_finish\<close> is the rest of it, a second later.
\<close>

definition stop_request :: "pstate \<Rightarrow> pstate" where
  "stop_request st =
     (if \<not> is_processing st then st
      else (let st1 = st\<lparr>should_stop := True\<rparr>
            in case detector st1 of
                 Some Live \<Rightarrow> st1\<lparr>detector := Some Dead\<rparr>
               | _ \<Rightarrow> st1))"

definition stop_finish :: "env \<Rightarrow> world \<Rightarrow> (fault + nat) \<times> world" where
  "stop_finish env w =
     (case w of (st, tr) \<Rightarrow>
        (case (if current_session_id st \<noteq> None then save_session env st else Inr st) of
           Inl e \<Rightarrow> (Inl e, (st, tr))
         | Inr st1 \<Rightarrow>
             (Inr (length (results st1)),
              (st1\<lparr>is_processing := False\<rparr>,
               tr @ [(StoppedEvent (length (results st1)), st1)]))))"

text \<open>An await of the worker: the event goes out, and a Stop request due here is handled.\<close>

definition await :: "env \<Rightarrow> nat \<Rightarrow> phase \<Rightarrow> event \<Rightarrow> world \<Rightarrow> world" where
  "await env i ph ev w =
     (case w of (st, tr) \<Rightarrow>
        (if stop_at env = Some (i, ph) then stop_request st else st, tr @ [(ev, st)]))"

text \<open>
  The new \<open>state.processed_count\<close>:
  \<open>state.processed_count + 1 if hasattr(state, 'processed_count') and state.processed_count else i + 1\<close>.
\<close>

definition next_count :: "nat \<Rightarrow> nat \<Rightarrow> nat" where
  "next_count i c = (if c \<noteq> 0 then c + 1 else i + 1)"

text \<open>The body of the loop of \<open>process_parts_batch_async\<close>, after the stop check.\<close>

definition process_one ::
  "env \<Rightarrow> int \<Rightarrow> nat \<Rightarrow> part \<Rightarrow> enriched list \<Rightarrow> world \<Rightarrow> (fault + enriched list) \<times> world"
where
  "process_one env start_idx i p res w =
     (let w1 = await env i AtProgress
                 (ProgressEvent (start_idx + int i) (processed_count (fst w) + i + 1)) w;
          (found, st2) = search_rockauto env p (fst w1);
          part_result = enrich p found;
          res' = res @ [part_result];
          st3 = st2\<lparr>processed_count := next_count i (processed_count st2),
                    results := res'\<rparr>;
          st4 = st3\<lparr>make_leaderboard :=
                      update_leaderboard (makes part_result) (qty part_result)
                        (make_leaderboard st3)\<rparr>
      in case (if (i + 1) mod 10 = 0 then save_session env st4 else Inr st4) of
           Inl e \<Rightarrow> (Inl e, (st4, snd w1))
         | Inr st5 \<Rightarrow>
             (Inr res',
              await env i AtResult (ResultEvent (start_idx + int i) part_result)
                (st5, snd w1)))"

text \<open>The loop \<open>for i, part in enumerate(parts[:max_parts])\<close>, \<open>res\<close> being the local \<open>results\<close>.\<close>

fun batch_loop ::
  "env \<Rightarrow> int \<Rightarrow> nat \<Rightarrow> part list \<Rightarrow> enriched list \<Rightarrow> world \<Rightarrow> (fault + enriched list) \<times> world"
where
  "batch_loop env start_idx i [] res w = (Inr res, w)"
| "batch_loop env start_idx i (p # rest) res w =
     (if should_stop (fst w) then (Inr res, w)
      else (case process_one env start_idx i p res w of
              (Inl e, w') \<Rightarrow> (Inl e, w')
            | (Inr res', w') \<Rightarrow> batch_loop env start_idx (i + 1) rest res' w'))"

text \<open>\<open>WebAutoPartsDetector.process_parts_batch_async\<close>.\<close>

definition process_parts_batch_async ::
  "env \<Rightarrow> part list \<Rightarrow> nat \<Rightarrow> int \<Rightarrow> world \<Rightarrow> (fault + enriched list) \<times> world" where
  "process_parts_batch_async env parts max_parts start_idx w =
     (case batch_loop env start_idx 0 (take max_parts parts) [] w of
        (Inl e, w') \<Rightarrow> (Inl e, w')
      | (Inr res, (st, tr)) \<Rightarrow> (Inr res, (close_browser st, tr)))"

text \<open>
  \<open>process_parts_background\<close>; \<open>failed\<close> is its \<open>except Exception\<close> branch.
\<close>

definition failed :: "fault \<Rightarrow> world \<Rightarrow> world" where
  "failed e w =
     (case w of (st, tr) \<Rightarrow>
        (let st1 = st\<lparr>error_message := Some e, is_processing := False\<rparr>
         in (st1, tr @ [(ErrorEvent e, st1)])))"

definition process_parts_background :: "env \<Rightarrow> part list \<Rightarrow> int \<Rightarrow> world \<Rightarrow> world" where
  "process_parts_background env parts_to_process start_idx w =
     (if detector (fst w) = None then failed NoDetectorFound w
      else
        (case process_parts_batch_async env parts_to_process (length parts_to_process)
                start_idx w of
           (Inl e, w') \<Rightarrow> failed e w'
         | (Inr res, (st, tr)) \<Rightarrow>
             if \<not> should_stop st then
               (let st1 = st\<lparr>results := res, is_processing := False\<rparr>
                in case save_session env st1 of
                     Inl e \<Rightarrow> failed e (st1, tr)
                   | Inr st2 \<Rightarrow>
                       (case save_to_history env st2 of
                          Inl e \<Rightarrow> failed e (st2, tr)
                        | Inr st3 \<Rightarrow> (st3, tr @ [(CompletedEvent (length res), st3)])))
             else (st\<lparr>results := res, is_processing := False\<rparr>, tr)))"

text \<open>
  \<open>start_processing\<close>: the error or the arguments of the background task it creates, and
  the state afterwards. \<open>new_id\<close> is the fresh \<open>uuid4\<close>.
\<close>

definition start_processing ::
  "string \<Rightarrow> processing_request \<Rightarrow> pstate \<Rightarrow> (http_error + part list \<times> int) \<times> pstate" where
  "start_processing new_id request st =
     (if is_processing st then (Inl AlreadyInProgress, st)
      else (case parts_data st of
              None \<Rightarrow> (Inl NoDataLoaded, st)
            | Some pd \<Rightarrow>
                (let automotive_parts = automotive pd;
                     total = int (length automotive_parts);
                     start_idx = (if is_test request then 0 else req_start_index request);
                     end_idx = (if is_test request then min 50 total
                                else (case req_end_index request of
                                        None \<Rightarrow> total | Some e \<Rightarrow> e))
                 in if start_idx < 0 \<or> start_idx \<ge> total then (Inl InvalidStartIndex, st)
                    else if end_idx \<le> start_idx then (Inl InvalidRange, st)
                    else if end_idx > total then (Inl InvalidEndIndex, st)
                    else (Inr (slice start_idx end_idx automotive_parts, start_idx),
                          st\<lparr>is_processing := True,
                             current_session_id := Some new_id,
                             start_index := start_idx,
                             end_index := end_idx,
                             processed_count := 0,
                             results := [],
                             should_stop := False,
                             error_message := None\<rparr>))))"

text \<open>\<open>resume_session\<close>.\<close>

definition resume_session ::
  "string \<Rightarrow> pstate \<Rightarrow> (http_error + part list \<times> int) \<times> pstate" where
  "resume_session session_id st =
     (if is_processing st then (Inl AlreadyInProgress, st)
      else (case load_session session_id st of
              (False, st1) \<Rightarrow> (Inl SessionNotFound, st1)
            | (True, st1) \<Rightarrow>
                (let remaining_parts =
                       end_index st1 - start_index st1 - int (processed_count st1)
                 in if remaining_parts \<le> 0 then (Inl SessionAlreadyCompleted, st1)
                    else (case parts_data st1 of
                            None \<Rightarrow> (Inl InternalError, st1)
                          | Some pd \<Rightarrow>
                              (let automotive_parts = automotive pd;
                                   start_from = start_index st1 + int (processed_count st1)
                               in (Inr (slice start_from (end_index st1) automotive_parts,
                                        start_from),
                                   st1\<lparr>is_processing := True, should_stop := False,
                                       error_message := None\<rparr>))))))"

text \<open>An observed state in which the result log is as long as the processed count says.\<close>

definition log_ok :: "event \<times> pstate \<Rightarrow> bool" where
  "log_ok x = (length (results (snd x)) = processed_count (snd x))"

text \<open>
  Runs used as examples: parts, the state right after an upload, a Start or a Resume
  followed by its background task.
\<close>

definition mk_part :: "int \<Rightarrow> string \<Rightarrow> int \<Rightarrow> part" where
  "mk_part i pn q =
     \<lparr>index = i, item_num = ''X_'' @ pn, part_number = pn, description = ''brake pad'',
      qty = q, unit_retail = 100, ext_retail = 100 * q\<rparr>"

definition uploaded :: "part list \<Rightarrow> pstate" where
  "uploaded ps = \<lparr>is_processing = False, current_session_id = None, detector = Some NoDriver,
     parts_data = Some \<lparr>automotive = ps, tools = [], unknown = []\<rparr>, total_parts = length ps,
     processed_count = 0, results = [], start_index = 0, end_index = 0, error_message = None,
     should_stop = False, make_leaderboard = [], session_files = [], history_files = []\<rparr>"

definition env0 :: env where
  "env0 =
     \<lparr>lookup = (\<lambda>p. Some [''Ford'']), stop_at = None, save_fails = (\<lambda>n. False),
      history_fails = False, state_visible = True\<rparr>"

definition four :: "part list" where
  "four = [mk_part 0 ''A'' 1, mk_part 1 ''B'' 2, mk_part 2 ''C'' 3, mk_part 3 ''D'' 4]"

definition run_start :: "env \<Rightarrow> string \<Rightarrow> processing_request \<Rightarrow> pstate \<Rightarrow> world" where
  "run_start env sid req st =
     (case start_processing sid req st of
        (Inl e, st') \<Rightarrow> (st', [])
      | (Inr (ps, i), st') \<Rightarrow> process_parts_background env ps i (st', []))"

definition run_resume :: "env \<Rightarrow> string \<Rightarrow> pstate \<Rightarrow> world" where
  "run_resume env sid st =
     (case resume_session sid st of
        (Inl e, st') \<Rightarrow> (st', [])
      | (Inr (ps, i), st') \<Rightarrow> process_parts_background env ps i (st', []))"

definition request4 :: processing_request where
  "request4 = \<lparr>req_start_index = 0, req_end_index = Some 4, is_test = False\<rparr>"

text \<open>
  Start(0,4) on the four parts, a Stop handled while the result event of the second record
  is sent, and the rest of \<open>stop_processing\<close> after the worker has returned; then
  Resume of that session.
\<close>

definition stopped_run :: world where
  "stopped_run =
     snd (stop_finish env0
            (run_start (env0\<lparr>stop_at := Some (1, AtResult)\<rparr>) ''s1'' request4 (uploaded four)))"

definition resumed_run :: world where
  "resumed_run = run_resume env0 ''s1'' (fst stopped_run)"

text \<open>
  Start(0,4) with the Stop handled while the progress event of the second record is sent,
  once with the stop flag visible to the lookup and once with it hidden.
\<close>

definition stop_mid_record :: world where
  "stop_mid_record =
     run_start (env0\<lparr>stop_at := Some (1, AtProgress)\<rparr>) ''s1'' request4 (uploaded four)"

definition stop_mid_record_unseen :: world where
  "stop_mid_record_unseen =
     run_start (env0\<lparr>stop_at := Some (1, AtProgress), state_visible := False\<rparr>) ''s1''
       request4 (uploaded four)"

definition started_four :: pstate where
  "started_four = snd (start_processing ''s1'' request4 (uploaded four))"

text \<open>Start(0,12) on twelve parts, with the checkpoint write after the tenth record failing.\<close>

definition twelve :: "part list" where
  "twelve = map (\<lambda>i. mk_part (int i) ''P'' 1) [0..<12]"

definition request12 :: processing_request where
  "request12 = \<lparr>req_start_index = 0, req_end_index = Some 12, is_test = False\<rparr>"

definition failing_env :: env where
  "failing_env = env0\<lparr>save_fails := (\<lambda>n. n = 10)\<rparr>"

definition started_twelve :: pstate where
  "started_twelve = snd (start_processing ''s1'' request12 (uploaded twelve))"

definition failing_checkpoint_run :: world where
  "failing_checkpoint_run = run_start failing_env ''s1'' request12 (uploaded twelve)"

text \<open>
  A resumed run whose checkpoint write fails: Start(0,12), a Stop handled while the result
  event of the second record is sent, Resume of that session, and the write at a processed
  count of 12 failing.
\<close>

definition stopped_twelve :: world where
  "stopped_twelve =
     snd (stop_finish env0
            (run_start (env0\<lparr>stop_at := Some (1, AtResult)\<rparr>) ''s1'' request12 (uploaded twelve)))"

definition resumed_twelve :: pstate where
  "resumed_twelve = snd (resume_session ''s1'' (fst stopped_twelve))"

definition late_failing_env :: env where
  "late_failing_env = env0\<lparr>save_fails := (\<lambda>n. n = 12)\<rparr>"

section \<open>Leaderboard input, piece by piece\<close>

text \<open>
  A string of makes seen as its comma-separated pieces: each piece is a token between
  two runs of whitespace. The token has no comma and neither begins nor ends with
  whitespace; it may be empty, as in the piece after a trailing comma.
\<close>

definition padded :: "string \<times> string \<times> string \<Rightarrow> string" where
  "padded x = (case x of (l, t, r) \<Rightarrow> l @ t @ r)"

definition token_of :: "string \<times> string \<times> string \<Rightarrow> string" where
  "token_of x = (case x of (l, t, r) \<Rightarrow> t)"

definition well_padded :: "string \<times> string \<times> string \<Rightarrow> bool" where
  "well_padded x =
     (case x of (l, t, r) \<Rightarrow>
        list_all is_space l \<and> list_all is_space r \<and> CHR '','' \<notin> set t
        \<and> (t = [] \<or> (\<not> is_space (hd t) \<and> \<not> is_space (last t))))"

section \<open>Case mapping lemmas\<close>

lemma code_char_of: "n < 256 \<Longrightarrow> code (char_of n) = n"
  by (simp add: code_def)

lemma to_upper_not_lower: "\<not> is_lower (to_upper c)"
  by (auto simp: to_upper_def is_lower_def code_char_of)

lemma to_upper_idem: "to_upper (to_upper c) = to_upper c"
  using to_upper_not_lower [of c] by (simp add: to_upper_def [of "to_upper c"])

lemma to_lower_not_upper: "\<not> is_upper (to_lower c)"
  by (auto simp: to_lower_def is_upper_def code_char_of)

lemma to_lower_idem: "to_lower (to_lower c) = to_lower c"
  using to_lower_not_upper [of c] by (simp add: to_lower_def [of "to_lower c"])

lemma char_of_code: "char_of (code c) = c"
  by (simp add: code_def)

lemma to_upper_to_lower: "to_upper (to_lower c) = to_upper c"
proof (cases "is_upper c")
  case True
  then have l: "is_lower (to_lower c)"
    by (auto simp: to_lower_def is_upper_def is_lower_def code_char_of)
  have "code (to_lower c) = code c + 32"
    using True by (auto simp: to_lower_def is_upper_def code_char_of)
  then have "to_upper (to_lower c) = char_of (code c)"
    using l by (simp add: to_upper_def)
  moreover have "to_upper c = c"
    using True by (auto simp: to_upper_def is_upper_def is_lower_def)
  ultimately show ?thesis
    by (simp add: char_of_code)
next
  case False
  then show ?thesis
    by (simp add: to_lower_def)
qed

lemma is_cased_to_upper: "is_cased (to_upper c) = is_cased c"
  by (auto simp: is_cased_def to_upper_def is_upper_def is_lower_def code_char_of)

lemma is_cased_to_lower: "is_cased (to_lower c) = is_cased c"
  by (auto simp: is_cased_def to_lower_def is_upper_def is_lower_def code_char_of)

lemma title_from_idem:
  "title_from b (title_from b s) = title_from b s"
proof (induction s arbitrary: b)
  case Nil
  show ?case by simp
next
  case (Cons c cs)
  show ?case
    by (simp add: Cons.IH to_lower_idem to_upper_idem is_cased_to_lower is_cased_to_upper)
qed

lemma title_idem: "title (title s) = title s"
  by (simp add: title_def title_from_idem)

lemma upper_title_from: "upper (title_from b s) = upper s"
  by (induction s arbitrary: b) (simp_all add: upper_def to_upper_to_lower to_upper_idem)

lemma upper_title: "upper (title s) = upper s"
  by (simp add: title_def upper_title_from)

lemma to_upper_literals:
  "to_upper CHR ''c'' = CHR ''C''" "to_upper CHR ''h'' = CHR ''H''"
  "to_upper CHR ''e'' = CHR ''E''" "to_upper CHR ''v'' = CHR ''V''"
  "to_upper CHR ''y'' = CHR ''Y''" "to_upper CHR ''C'' = CHR ''C''"
  "to_upper CHR ''H'' = CHR ''H''" "to_upper CHR ''E'' = CHR ''E''"
  "to_upper CHR ''V'' = CHR ''V''" "to_upper CHR ''Y'' = CHR ''Y''"
  by (simp_all add: to_upper_def is_lower_def code_def char_of_def bit_iff_odd)

lemma same_letters_upper: "same_letters v w \<Longrightarrow> upper v = upper w"
  unfolding same_letters_def upper_def
  by (induction v w rule: list_all2_induct) (auto simp: to_upper_to_lower to_upper_idem)

lemma upper_CHEVY: "upper ''CHEVY'' = ''CHEVY''"
  by (simp add: upper_def to_upper_literals)

lemma normalize_Chevrolet: "normalize_make ''Chevrolet'' = ''Chevrolet''"
  by (simp add: normalize_make_def upper_def title_def to_upper_def to_lower_def
      is_lower_def is_upper_def is_cased_def code_def)

section \<open>Normalisation is idempotent\<close>

text \<open>
  C10. Make normalisation is idempotent on its own outputs: for every make string \<open>m\<close> of
  ASCII characters, normalising \<open>normalize_make m\<close> again returns it unchanged. In
  particular \<open>Chevrolet\<close> normalises to itself, and every spelling of the alias
  \<open>CHEVY\<close>, in any letter case, normalises to \<open>Chevrolet\<close>.
\<close>

theorem normalize_make_idempotent:
  "(ascii_only m \<longrightarrow> normalize_make (normalize_make m) = normalize_make m)
   \<and> normalize_make ''Chevrolet'' = ''Chevrolet''
   \<and> (same_letters v ''CHEVY'' \<longrightarrow> normalize_make v = ''Chevrolet'')"
proof (intro conjI impI)
  show "normalize_make (normalize_make m) = normalize_make m"
  proof (cases "upper m = ''CHEVY''")
    case True
    then show ?thesis
      using normalize_Chevrolet by (simp add: normalize_make_def [of m])
  next
    case False
    then have n: "normalize_make m = title m"
      by (simp add: normalize_make_def)
    have "upper (title m) \<noteq> ''CHEVY''"
      using False by (simp add: upper_title)
    then have "normalize_make (title m) = title (title m)"
      by (simp add: normalize_make_def)
    then show ?thesis
      by (simp add: n title_idem)
  qed
next
  show "normalize_make ''Chevrolet'' = ''Chevrolet''"
    by (rule normalize_Chevrolet)
next
  assume "same_letters v ''CHEVY''"
  then have "upper v = ''CHEVY''"
    using same_letters_upper upper_CHEVY by simp
  then show "normalize_make v = ''Chevrolet''"
    by (simp add: normalize_make_def)
qed

theorem normalize_make_idempotent_witness:
  "ascii_only ''hONDA'' \<and> normalize_make ''hONDA'' = ''Honda''
   \<and> normalize_make (normalize_make ''hONDA'') = normalize_make ''hONDA''
   \<and> same_letters ''cHeVy'' ''CHEVY'' \<and> normalize_make ''cHeVy'' = ''Chevrolet''"
proof -
  have a: "ascii_only ''hONDA''"
    by (simp add: ascii_only_def is_ascii_def code_def)
  have s: "same_letters ''cHeVy'' ''CHEVY''"
    by (simp add: same_letters_def to_upper_def to_lower_def is_lower_def is_upper_def code_def
        char_of_def bit_iff_odd)
  have h: "normalize_make ''hONDA'' = ''Honda''"
    by (simp add: normalize_make_def upper_def title_def to_upper_def to_lower_def
        is_lower_def is_upper_def is_cased_def code_def char_of_def bit_iff_odd)
  show ?thesis
    using a s h normalize_make_idempotent [of "''hONDA''" "''cHeVy''"] by simp
qed

section \<open>Leaderboard: tallies\<close>

lemma map_of_modify: "map_of (dict_modify k f d) k' = (if k' = k then map_option f (map_of d k) else map_of d k')"
  by (induction d) (auto simp: dict_modify_def)

lemma map_of_add: "map_of (dict_add k v d) k' = (case map_of d k' of Some w \<Rightarrow> Some w | None \<Rightarrow> if k' = k then Some v else None)"
  by (induction d) (auto simp: dict_add_def)

lemma not_key_iff: "k \<notin> set (dict_keys d) \<longleftrightarrow> map_of d k = None"
  by (simp add: dict_keys_def map_of_eq_None_iff)

lemma map_of_tally:
  "map_of (tally q lb m) k =
     (if k = m then Some \<lparr>count = count_of lb m + 1, weighted_count = weighted_of lb m + q\<rparr>
      else map_of lb k)"
proof (cases "map_of lb m")
  case None
  then show ?thesis
    by (simp add: tally_def Let_def map_of_modify map_of_add not_key_iff count_of_def weighted_of_def split: option.splits)
next
  case (Some e)
  then show ?thesis
    by (cases e) (simp add: tally_def Let_def map_of_modify not_key_iff count_of_def weighted_of_def)
qed

lemma count_of_tally: "count_of (tally q lb m) k = count_of lb k + (if k = m then 1 else 0)"
  by (simp add: count_of_def [of "tally q lb m"] map_of_tally) (simp add: count_of_def)

lemma weighted_of_tally: "weighted_of (tally q lb m) k = weighted_of lb k + (if k = m then q else 0)"
  by (simp add: weighted_of_def [of "tally q lb m"] map_of_tally) (simp add: weighted_of_def)

lemma count_list_distinct: "distinct xs \<Longrightarrow> x \<in> set xs \<Longrightarrow> count_list xs x = 1"
  by (induction xs) auto

lemma map_of_foldl_tally:
  "map_of (foldl (tally q) lb ms) k =
     (if k \<in> set ms
      then Some \<lparr>count = count_of lb k + int (count_list ms k),
                 weighted_count = weighted_of lb k + int (count_list ms k) * q\<rparr>
      else map_of lb k)"
proof (induction ms arbitrary: lb)
  case Nil
  show ?case by simp
next
  case (Cons m ms)
  show ?case
    by (simp add: Cons.IH map_of_tally count_of_tally weighted_of_tally algebra_simps)
qed

lemma split_on_not_Nil: "split_on sep s \<noteq> []"
  by (induction s) (auto split: list.splits)

lemma split_on_no_sep: "sep \<notin> set x \<Longrightarrow> split_on sep x = [x]"
  by (induction x) auto

lemma split_on_append_sep:
  "sep \<notin> set x \<Longrightarrow> split_on sep (x @ sep # rest) = x # split_on sep rest"
  by (induction x) (auto simp: split_on_not_Nil split: list.splits)

lemma split_on_join:
  "xs \<noteq> [] \<Longrightarrow> \<forall>x \<in> set xs. sep \<notin> set x \<Longrightarrow> split_on sep (join [sep] xs) = xs"
proof (induction xs rule: induct_list012)
  case 1
  then show ?case by simp
next
  case (2 x)
  then show ?case by (simp add: split_on_no_sep)
next
  case (3 x y zs)
  then show ?case by (simp add: split_on_append_sep)
qed

lemma comma_not_space: "\<not> is_space CHR '',''"
  by (simp add: is_space_def code_def)

lemma dropWhile_blank: "list_all P xs \<Longrightarrow> dropWhile P (xs @ ys) = dropWhile P ys"
  by (induction xs) auto

lemma dropWhile_hd: "xs \<noteq> [] \<Longrightarrow> \<not> P (hd xs) \<Longrightarrow> dropWhile P xs = xs"
  by (cases xs) auto

lemma strip_padded: "well_padded x \<Longrightarrow> strip (padded x) = token_of x"
proof -
  obtain l t r where x: "x = (l, t, r)"
    by (cases x)
  assume "well_padded x"
  then have w: "list_all is_space l" "list_all is_space r"
    "t = [] \<or> (\<not> is_space (hd t) \<and> \<not> is_space (last t))"
    by (simp_all add: well_padded_def x)
  have rr: "list_all is_space (rev r)"
    using w(2) by (simp add: list_all_iff)
  show ?thesis
  proof (cases "t = []")
    case True
    have e: "dropWhile is_space (l @ r) = []"
      using w(1,2) by (auto simp: dropWhile_eq_Nil_conv list_all_iff)
    have "strip (l @ r) = []"
      unfolding strip_def e by simp
    then show ?thesis
      using True by (simp add: padded_def token_of_def x)
  next
    case False
    then have ht: "\<not> is_space (hd t)" "\<not> is_space (last t)"
      using w(3) by simp_all
    have e1: "dropWhile is_space (l @ t @ r) = t @ r"
      using w(1) False ht(1) by (simp add: dropWhile_blank dropWhile_hd)
    have e2: "dropWhile is_space (rev r @ rev t) = rev t"
      using rr False ht(2) by (simp add: dropWhile_blank dropWhile_hd hd_rev)
    have "strip (l @ t @ r) = t"
      unfolding strip_def e1 rev_append e2 by simp
    then show ?thesis
      by (simp add: padded_def token_of_def x)
  qed
qed

lemma padded_no_comma: "well_padded x \<Longrightarrow> CHR '','' \<notin> set (padded x)"
  by (cases x) (auto simp: well_padded_def padded_def list_all_iff comma_not_space)

lemma make_tokens_join:
  assumes "pieces \<noteq> []" "list_all well_padded pieces"
  shows "make_tokens (join '','' (map padded pieces))
           = filter (\<lambda>t. t \<noteq> []) (map token_of pieces)"
proof -
  have "split_on CHR '','' (join '','' (map padded pieces)) = map padded pieces"
    using assms by (intro split_on_join) (auto simp: list_all_iff padded_no_comma)
  moreover have "map strip (filter (\<lambda>m. strip m \<noteq> []) (map padded pieces))
      = filter (\<lambda>t. t \<noteq> []) (map token_of pieces)"
    using assms(2) by (induction pieces) (auto simp: strip_padded)
  ultimately show ?thesis
    by (simp add: make_tokens_def)
qed

text \<open>
  The string the worker passes for a record with makes, \<open>', '.join(sorted(set(makes)))\<close>,
  consists of such pieces with no token repeated, provided no make contains a comma or
  begins or ends with whitespace.
\<close>

lemma join_pad: "join sep ((a @ b) # zs) = a @ join sep (b # zs)"
  by (cases zs) simp_all

lemma join_spaced: "join '', '' (x # xs) = join '','' (x # map (\<lambda>y. '' '' @ y) xs)"
proof (induction xs arbitrary: x)
  case Nil
  show ?case by simp
next
  case (Cons y ys)
  have "join '','' (('' '' @ y) # map (\<lambda>y. '' '' @ y) ys)
      = '' '' @ join '','' (y # map (\<lambda>y. '' '' @ y) ys)"
    by (rule join_pad)
  then show ?case
    using Cons.IH [of y] by simp
qed

lemma join_comma_space:
  "join '', '' (x # xs)
     = join '','' (map padded (([], x, []) # map (\<lambda>y. ('' '', y, [])) xs))"
proof -
  have "map padded (([], x, []) # map (\<lambda>y. ('' '', y, [])) xs) = x # map (\<lambda>y. '' '' @ y) xs"
    by (simp add: padded_def)
  then show ?thesis
    by (simp only: join_spaced)
qed

lemma set_join: "set (join sep xs) \<subseteq> set sep \<union> \<Union> (set ` set xs)"
  by (induction sep xs rule: join.induct) auto

lemma worker_makes_are_pieces:
  assumes ms: "ms \<noteq> []"
    and clean: "\<forall>m \<in> set ms. CHR '','' \<notin> set m \<and> ascii_only m
                  \<and> (m = [] \<or> (\<not> is_space (hd m) \<and> \<not> is_space (last m)))"
  shows "\<exists>pieces. pieces \<noteq> [] \<and> list_all well_padded pieces
           \<and> makes (enrich p (Some ms)) = join '','' (map padded pieces)
           \<and> ascii_only (makes (enrich p (Some ms)))
           \<and> distinct (filter (\<lambda>t. t \<noteq> []) (map token_of pieces))"
proof -
  obtain x xs where s: "sort (remdups ms) = x # xs"
    using ms by (cases "sort (remdups ms)") (auto dest: arg_cong [where f = set])
  let ?pieces = "([], x, []) # map (\<lambda>y. ('' '', y, [])) xs"
  have st: "set (x # xs) = set ms" and ds: "distinct (x # xs)"
    using s [symmetric] by simp_all
  have m: "makes (enrich p (Some ms)) = join '', '' (x # xs)"
    using ms by (simp add: enrich_def with_makes_def s)
  have sp: "is_space CHR '' ''"
    by (simp add: is_space_def code_def)
  have wp: "list_all well_padded ?pieces"
    using clean st sp by (auto simp: list_all_iff well_padded_def)
  have tok: "map token_of ?pieces = x # xs"
    by (simp add: token_of_def comp_def)
  have asc: "ascii_only (join '', '' (x # xs))"
  proof -
    have "is_ascii c" if "c \<in> set '', ''" for c
      using that by (auto simp: is_ascii_def code_def)
    moreover have "is_ascii c" if "c \<in> \<Union> (set ` set (x # xs))" for c
      using that clean unfolding st by (auto simp: ascii_only_def list_all_iff)
    ultimately show ?thesis
      using set_join [of "'', ''" "x # xs"] unfolding ascii_only_def list_all_iff by blast
  qed
  have "distinct (filter (\<lambda>t. t \<noteq> []) (map token_of ?pieces))"
    unfolding tok using ds by (rule distinct_filter)
  then show ?thesis
    using wp m asc join_comma_space [of x xs] by (intro exI [of _ ?pieces]) simp
qed

text \<open>
  C7. Let \<open>makes\<close> consist of comma-separated pieces, each a token with whitespace around
  it, where no non-empty token occurs twice: the worker, the only caller, passes
  \<open>NOT_FOUND\<close> or the makes of a record sorted, without duplicates and joined by
  \<open>", "\<close>. A call \<open>update(makes, quantity)\<close> with \<open>makes\<close> empty or the \<open>NOT_FOUND\<close>
  sentinel leaves the leaderboard unchanged. Otherwise the makes counted are exactly the
  non-empty tokens, without the whitespace around them: each of them has its
  \<open>occurrenceCount\<close> raised by exactly 1 and its \<open>weightedCount\<close> by exactly
  \<open>quantity\<close>, from 0 when it had no entry, and no other entry changes.
\<close>

theorem update_leaderboard_tallies:
  assumes pieces: "pieces \<noteq> []" "list_all well_padded pieces"
    and str: "makes_list = join '','' (map padded pieces)" "ascii_only makes_list"
    and once: "distinct (filter (\<lambda>t. t \<noteq> []) (map token_of pieces))"
  shows "(makes_list = [] \<or> makes_list = ''NOT_FOUND'' \<longrightarrow>
            update_leaderboard makes_list q lb = lb)
         \<and> (makes_list \<noteq> [] \<and> makes_list \<noteq> ''NOT_FOUND'' \<longrightarrow>
              (\<forall>m. map_of (update_leaderboard makes_list q lb) m =
                 (if m \<noteq> [] \<and> m \<in> token_of ` set pieces
                  then Some \<lparr>count = count_of lb m + 1, weighted_count = weighted_of lb m + q\<rparr>
                  else map_of lb m)))"
proof (intro conjI impI)
  assume "makes_list = [] \<or> makes_list = ''NOT_FOUND''"
  then show "update_leaderboard makes_list q lb = lb"
    by (auto simp: update_leaderboard_def)
next
  assume a: "makes_list \<noteq> [] \<and> makes_list \<noteq> ''NOT_FOUND''"
  define toks where "toks = filter (\<lambda>t. t \<noteq> []) (map token_of pieces)"
  have t: "make_tokens makes_list = toks"
    unfolding str(1) toks_def using pieces by (rule make_tokens_join)
  have d: "distinct toks"
    using once by (simp only: toks_def)
  have u: "update_leaderboard makes_list q lb = foldl (tally q) lb toks"
    using a by (simp add: update_leaderboard_def t)
  have s: "m \<in> set toks \<longleftrightarrow> m \<noteq> [] \<and> m \<in> token_of ` set pieces" for m
    by (auto simp: toks_def)
  show "\<forall>m. map_of (update_leaderboard makes_list q lb) m =
                 (if m \<noteq> [] \<and> m \<in> token_of ` set pieces
                  then Some \<lparr>count = count_of lb m + 1, weighted_count = weighted_of lb m + q\<rparr>
                  else map_of lb m)"
  proof
    fix m
    have "map_of (foldl (tally q) lb toks) m =
                 (if m \<in> set toks
                  then Some \<lparr>count = count_of lb m + 1, weighted_count = weighted_of lb m + q\<rparr>
                  else map_of lb m)"
    proof (cases "m \<in> set toks")
      case True
      then have "count_list toks m = 1"
        using d by (simp add: count_list_distinct)
      then show ?thesis
        using True by (simp add: map_of_foldl_tally)
    next
      case False
      then show ?thesis
        by (simp add: map_of_foldl_tally)
    qed
    then show "map_of (update_leaderboard makes_list q lb) m =
                 (if m \<noteq> [] \<and> m \<in> token_of ` set pieces
                  then Some \<lparr>count = count_of lb m + 1, weighted_count = weighted_of lb m + q\<rparr>
                  else map_of lb m)"
      unfolding u s .
  qed
qed

theorem update_leaderboard_tallies_witness:
  "makes (enrich (mk_part 0 ''A'' 1) (Some [''Honda'', ''Ford'', ''Honda''])) = ''Ford, Honda''
   \<and> join '','' (map padded [([], ''Ford'', []), ('' '', ''Honda'', [])]) = ''Ford, Honda''
   \<and> list_all well_padded [([], ''Ford'', []), ('' '', ''Honda'', [])]
   \<and> ascii_only ''Ford, Honda''
   \<and> map_of (update_leaderboard ''Ford, Honda'' 4
               [(''Ford'', \<lparr>count = 1, weighted_count = 5\<rparr>)]) ''Ford''
       = Some \<lparr>count = 2, weighted_count = 9\<rparr>
   \<and> map_of (update_leaderboard ''Ford, Honda'' 4
               [(''Ford'', \<lparr>count = 1, weighted_count = 5\<rparr>)]) ''Honda''
       = Some \<lparr>count = 1, weighted_count = 4\<rparr>
   \<and> map_of (update_leaderboard ''Ford, Honda'' 4
               [(''Ford'', \<lparr>count = 1, weighted_count = 5\<rparr>)]) ''Kia'' = None
   \<and> update_leaderboard ''NOT_FOUND'' 4 [(''Ford'', \<lparr>count = 1, weighted_count = 5\<rparr>)]
       = [(''Ford'', \<lparr>count = 1, weighted_count = 5\<rparr>)]"
proof -
  let ?lb = "[(''Ford'', \<lparr>count = 1, weighted_count = 5\<rparr>)]"
  let ?pieces = "[([], ''Ford'', []), ('' '', ''Honda'', [])]"
  have worker: "makes (enrich (mk_part 0 ''A'' 1) (Some [''Honda'', ''Ford'', ''Honda'']))
      = ''Ford, Honda''"
    by code_simp
  have ne: "?pieces \<noteq> []" "[([], ''NOT_FOUND'', [])] \<noteq> ([] :: (string \<times> string \<times> string) list)"
    by simp_all
  have wp: "list_all well_padded ?pieces" "list_all well_padded [([], ''NOT_FOUND'', [])]"
    by code_simp+
  have str: "''Ford, Honda'' = join '','' (map padded ?pieces)"
    "''NOT_FOUND'' = join '','' (map padded [([], ''NOT_FOUND'', [])])"
    by (simp_all add: padded_def)
  have asc: "ascii_only ''Ford, Honda''" "ascii_only ''NOT_FOUND''"
    by code_simp+
  have once: "distinct (filter (\<lambda>t. t \<noteq> []) (map token_of ?pieces))"
    "distinct (filter (\<lambda>t. t \<noteq> []) (map token_of [([], ''NOT_FOUND'', [])]))"
    by (simp_all add: token_of_def)
  have "\<forall>m. map_of (update_leaderboard ''Ford, Honda'' 4 ?lb) m =
           (if m \<noteq> [] \<and> m \<in> token_of ` set ?pieces
            then Some \<lparr>count = count_of ?lb m + 1, weighted_count = weighted_of ?lb m + 4\<rparr>
            else map_of ?lb m)"
    using update_leaderboard_tallies [OF ne(1) wp(1) str(1) asc(1) once(1), of 4 ?lb] by simp
  then have tallies:
    "map_of (update_leaderboard ''Ford, Honda'' 4 ?lb) ''Ford''
       = Some \<lparr>count = 2, weighted_count = 9\<rparr>"
    "map_of (update_leaderboard ''Ford, Honda'' 4 ?lb) ''Honda''
       = Some \<lparr>count = 1, weighted_count = 4\<rparr>"
    "map_of (update_leaderboard ''Ford, Honda'' 4 ?lb) ''Kia'' = None"
    by (simp_all add: token_of_def count_of_def weighted_of_def)
  have "update_leaderboard ''NOT_FOUND'' 4 ?lb = ?lb"
    using update_leaderboard_tallies [OF ne(2) wp(2) str(2) asc(2) once(2), of 4 ?lb] by simp
  then show ?thesis
    using worker wp(1) asc(1) str(1) tallies by simp
qed

section \<open>Leaderboard: ranking\<close>

lemma sorted_reverse_sort_key: "sorted_reverse key xs = sort_key (\<lambda>x. - key x) xs"
proof -
  have "insert_desc key x ys = insort_key (\<lambda>x. - key x) x ys" for x ys
    by (induction ys) auto
  then show ?thesis unfolding sorted_reverse_def sort_key_def by (induction xs) auto
qed

lemma place_nth: "distinct xs \<Longrightarrow> i < length xs \<Longrightarrow> place (xs ! i) xs = i"
proof (induction xs arbitrary: i)
  case Nil
  then show ?case by simp
next
  case (Cons x xs)
  then show ?case by (cases i) auto
qed

lemma place_filter:
  "P a \<Longrightarrow> P b \<Longrightarrow> a \<in> set xs \<Longrightarrow> b \<in> set xs \<Longrightarrow>
   (place a (filter P xs) < place b (filter P xs)) = (place a xs < place b xs)"
proof (induction xs)
  case Nil
  then show ?case by simp
next
  case (Cons x xs)
  show ?case
  proof (cases "a = x \<or> b = x")
    case True
    then show ?thesis using Cons.prems by auto
  next
    case False
    then show ?thesis using Cons by auto
  qed
qed

lemma place_map_fst:
  "distinct (map fst xs) \<Longrightarrow> x \<in> set xs \<Longrightarrow> place (fst x) (map fst xs) = place x xs"
proof (induction xs)
  case Nil
  then show ?case by simp
next
  case (Cons y ys)
  then show ?case by (auto simp: rev_image_eqI)
qed

lemma sorted_reverse_props:
  "set (sorted_reverse key xs) = set xs"
  "length (sorted_reverse key xs) = length xs"
  "distinct (sorted_reverse key xs) = distinct xs"
  "sorted (map (\<lambda>x. - key x) (sorted_reverse key xs))"
  "filter (\<lambda>x. key x = k) (sorted_reverse key xs) = filter (\<lambda>x. key x = k) xs"
proof -
  show "set (sorted_reverse key xs) = set xs" "length (sorted_reverse key xs) = length xs"
    "distinct (sorted_reverse key xs) = distinct xs"
    "sorted (map (\<lambda>x. - key x) (sorted_reverse key xs))"
    by (simp_all add: sorted_reverse_sort_key)
  have "filter (\<lambda>x. - key x = - k) (sort_key (\<lambda>x. - key x) xs) = filter (\<lambda>x. - key x = - k) xs"
    by (rule sort_key_stable)
  then show "filter (\<lambda>x. key x = k) (sorted_reverse key xs) = filter (\<lambda>x. key x = k) xs"
    by (simp add: sorted_reverse_sort_key)
qed

lemma sorted_reverse_desc:
  assumes "i < j" "j < length xs"
  shows "key (sorted_reverse key xs ! j) \<le> key (sorted_reverse key xs ! i)"
proof -
  let ?s = "sorted_reverse key xs"
  have "map (\<lambda>x. - key x) ?s ! i \<le> map (\<lambda>x. - key x) ?s ! j"
    using assms sorted_reverse_props(2,4) [of key xs]
    by (intro sorted_nth_mono) auto
  then show ?thesis
    using assms by (simp add: sorted_reverse_props(2))
qed

lemma sorted_reverse_stable:
  assumes d: "distinct xs" and ij: "i < j" "j < length xs"
    and eq: "key (sorted_reverse key xs ! i) = key (sorted_reverse key xs ! j)"
  shows "place (sorted_reverse key xs ! i) xs < place (sorted_reverse key xs ! j) xs"
proof -
  let ?s = "sorted_reverse key xs"
  let ?a = "?s ! i" and ?b = "?s ! j"
  let ?P = "\<lambda>x. key x = key ?a"
  have len: "length ?s = length xs" and ds: "distinct ?s"
    using d by (simp_all add: sorted_reverse_props)
  have mem: "?a \<in> set ?s" "?b \<in> set ?s"
    using ij len by simp_all
  have "place ?a ?s < place ?b ?s"
    using ij len ds by (simp add: place_nth)
  then have "place ?a (filter ?P ?s) < place ?b (filter ?P ?s)"
    using mem eq by (simp add: place_filter)
  then have "place ?a (filter ?P xs) < place ?b (filter ?P xs)"
    by (simp only: sorted_reverse_props(5))
  moreover have "?a \<in> set xs" "?b \<in> set xs"
    using mem by (simp_all only: sorted_reverse_props(1))
  ultimately show ?thesis
    using eq by (simp add: place_filter)
qed

text \<open>
  C8. For every leaderboard and every count \<open>n \<ge> 0\<close>, \<open>get_top_makes n\<close> returns
  \<open>min n (size of the leaderboard)\<close> of its entries, so at most \<open>n\<close>, sorted descending by
  \<open>weighted_count\<close>; of two returned entries of equal \<open>weighted_count\<close> the one whose make
  was inserted first comes first. The entries returned are the highest ranked ones: an
  entry left out has no greater \<open>weighted_count\<close> than any returned one, and where the two
  are equal the returned make was inserted first.
\<close>

theorem get_top_makes_ranking:
  assumes n: "0 \<le> n" and d: "distinct (dict_keys lb)"
  shows "length (get_top_makes n lb) = min (nat n) (length lb)
         \<and> set (get_top_makes n lb) \<subseteq> set lb
         \<and> (\<forall>i j. i < j \<and> j < length (get_top_makes n lb) \<longrightarrow>
               weighted_count (snd (get_top_makes n lb ! j))
                 \<le> weighted_count (snd (get_top_makes n lb ! i))
               \<and> (weighted_count (snd (get_top_makes n lb ! i))
                    = weighted_count (snd (get_top_makes n lb ! j)) \<longrightarrow>
                  place (fst (get_top_makes n lb ! i)) (dict_keys lb)
                    < place (fst (get_top_makes n lb ! j)) (dict_keys lb)))
         \<and> (\<forall>x \<in> set (get_top_makes n lb). \<forall>y \<in> set lb - set (get_top_makes n lb).
               weighted_count (snd y) \<le> weighted_count (snd x)
               \<and> (weighted_count (snd y) = weighted_count (snd x) \<longrightarrow>
                  place (fst x) (dict_keys lb) < place (fst y) (dict_keys lb)))"
proof -
  let ?key = "\<lambda>x. weighted_count (snd x)"
  let ?s = "sorted_reverse ?key lb"
  have r: "get_top_makes n lb = take (nat n) ?s"
    using n by (simp add: get_top_makes_def slice_to_def)
  have dl: "distinct lb"
    using d by (simp add: dict_keys_def distinct_map)
  have ls: "length ?s = length lb" and ss: "set ?s = set lb"
    by (simp_all add: sorted_reverse_props)
  have len: "length (get_top_makes n lb) = min (nat n) (length lb)"
    by (simp add: r sorted_reverse_props(2) min.commute)
  have sub: "set (get_top_makes n lb) \<subseteq> set lb"
    using set_take_subset [of "nat n" ?s] by (simp add: r sorted_reverse_props(1))
  have order: "?key (?s ! j) \<le> ?key (?s ! i)
      \<and> (?key (?s ! i) = ?key (?s ! j) \<longrightarrow>
          place (fst (?s ! i)) (dict_keys lb) < place (fst (?s ! j)) (dict_keys lb))"
    if ij: "i < j" "j < length lb" for i j
  proof -
    have mem: "?s ! i \<in> set lb" "?s ! j \<in> set lb"
      using ij ls ss by (metis nth_mem order_less_trans)+
    have desc: "?key (?s ! j) \<le> ?key (?s ! i)"
      using ij by (rule sorted_reverse_desc)
    have "place (?s ! i) lb < place (?s ! j) lb" if "?key (?s ! i) = ?key (?s ! j)"
      using dl ij that by (rule sorted_reverse_stable)
    then have "?key (?s ! i) = ?key (?s ! j) \<longrightarrow>
        place (fst (?s ! i)) (dict_keys lb) < place (fst (?s ! j)) (dict_keys lb)"
      using d mem by (simp add: dict_keys_def place_map_fst)
    then show ?thesis
      using desc by simp
  qed
  have rank: "?key (get_top_makes n lb ! j) \<le> ?key (get_top_makes n lb ! i)
      \<and> (?key (get_top_makes n lb ! i) = ?key (get_top_makes n lb ! j) \<longrightarrow>
          place (fst (get_top_makes n lb ! i)) (dict_keys lb)
            < place (fst (get_top_makes n lb ! j)) (dict_keys lb))"
    if ij: "i < j" "j < length (get_top_makes n lb)" for i j
  proof -
    have j: "j < nat n" "j < length lb"
      using ij(2) len by simp_all
    have nth: "get_top_makes n lb ! i = ?s ! i" "get_top_makes n lb ! j = ?s ! j"
      using ij(1) j(1) by (simp_all add: r)
    show ?thesis
      unfolding nth by (rule order [OF ij(1) j(2)])
  qed
  have out: "?key y \<le> ?key x
      \<and> (?key y = ?key x \<longrightarrow> place (fst x) (dict_keys lb) < place (fst y) (dict_keys lb))"
    if x: "x \<in> set (get_top_makes n lb)" and y: "y \<in> set lb - set (get_top_makes n lb)" for x y
  proof -
    obtain i where i: "i < length (get_top_makes n lb)" "get_top_makes n lb ! i = x"
      using x by (auto simp: in_set_conv_nth)
    have i': "i < nat n" "i < length lb" "?s ! i = x"
      using i len by (simp_all add: r ls)
    obtain j where j: "j < length lb" "?s ! j = y"
      using y ss ls by (metis DiffD1 in_set_conv_nth)
    have "\<not> j < nat n"
    proof
      assume "j < nat n"
      then have "take (nat n) ?s ! j = y" "j < length (take (nat n) ?s)"
        using j ls by simp_all
      then have "y \<in> set (take (nat n) ?s)"
        by (metis nth_mem)
      then show False
        using y by (simp add: r)
    qed
    then have "i < j"
      using i'(1) by simp
    from order [OF this j(1)] show ?thesis
      unfolding i'(3) j(2) by auto
  qed
  show ?thesis
    using len sub rank out by blast
qed


theorem get_top_makes_ranking_witness:
  "get_top_makes 2
     [(''Ford'', \<lparr>count = 2, weighted_count = 5\<rparr>), (''Honda'', \<lparr>count = 1, weighted_count = 7\<rparr>),
      (''Kia'', \<lparr>count = 1, weighted_count = 5\<rparr>), (''Audi'', \<lparr>count = 1, weighted_count = 1\<rparr>)]
   = [(''Honda'', \<lparr>count = 1, weighted_count = 7\<rparr>), (''Ford'', \<lparr>count = 2, weighted_count = 5\<rparr>)]
   \<and> place ''Ford'' (dict_keys
        [(''Ford'', \<lparr>count = 2, weighted_count = 5\<rparr>), (''Honda'', \<lparr>count = 1, weighted_count = 7\<rparr>),
         (''Kia'', \<lparr>count = 1, weighted_count = 5\<rparr>), (''Audi'', \<lparr>count = 1, weighted_count = 1\<rparr>)])
       < place ''Kia'' (dict_keys
        [(''Ford'', \<lparr>count = 2, weighted_count = 5\<rparr>), (''Honda'', \<lparr>count = 1, weighted_count = 7\<rparr>),
         (''Kia'', \<lparr>count = 1, weighted_count = 5\<rparr>), (''Audi'', \<lparr>count = 1, weighted_count = 1\<rparr>)])"
proof -
  let ?lb = "[(''Ford'', \<lparr>count = 2, weighted_count = 5\<rparr>), (''Honda'', \<lparr>count = 1, weighted_count = 7\<rparr>),
      (''Kia'', \<lparr>count = 1, weighted_count = 5\<rparr>), (''Audi'', \<lparr>count = 1, weighted_count = 1\<rparr>)]"
  let ?ford = "(''Ford'', \<lparr>count = 2, weighted_count = 5\<rparr>)"
  let ?kia = "(''Kia'', \<lparr>count = 1, weighted_count = 5\<rparr>)"
  have n: "(0::int) \<le> 2"
    by simp
  have d: "distinct (dict_keys ?lb)"
    by (simp add: dict_keys_def)
  have v: "get_top_makes 2 ?lb
      = [(''Honda'', \<lparr>count = 1, weighted_count = 7\<rparr>), (''Ford'', \<lparr>count = 2, weighted_count = 5\<rparr>)]"
    by (simp add: get_top_makes_def sorted_reverse_def slice_to_def)
  have "\<forall>x \<in> set (get_top_makes 2 ?lb). \<forall>y \<in> set ?lb - set (get_top_makes 2 ?lb).
          weighted_count (snd y) \<le> weighted_count (snd x)
          \<and> (weighted_count (snd y) = weighted_count (snd x) \<longrightarrow>
             place (fst x) (dict_keys ?lb) < place (fst y) (dict_keys ?lb))"
    using get_top_makes_ranking [OF n d] by blast
  moreover have "?ford \<in> set (get_top_makes 2 ?lb)"
    "?kia \<in> set ?lb - set (get_top_makes 2 ?lb)"
    by (simp_all add: v)
  ultimately have "weighted_count (snd ?kia) = weighted_count (snd ?ford) \<longrightarrow>
      place (fst ?ford) (dict_keys ?lb) < place (fst ?kia) (dict_keys ?lb)"
    by blast
  then have "place ''Ford'' (dict_keys ?lb) < place ''Kia'' (dict_keys ?lb)"
    by simp
  then show ?thesis
    using v by simp
qed

section \<open>Broadcast: a registry that changes during the sends\<close>

declare send_loop.simps [simp del]

text \<open>
  C9 (divergence). Observers 1, 2 and 3 are registered and the connection of observer 1
  is broken: the send to it raises, and while that send is awaited its handler removes it
  from the registry. The loop of \<open>broadcast\<close> runs over the registry itself, so observer 2
  moves to the position the loop has just left and is passed over: after the broadcast
  observers 2 and 3 are both registered, observer 3 has received the event and observer 2
  has not.
\<close>

theorem broadcast_skips_observer:
  "active_connections three_observers = [1, 2, 3]
   \<and> active_connections broken_first = [2, 3]
   \<and> delivered broken_first 2 = []
   \<and> delivered broken_first 3 = [''result'']"
  by code_simp

text \<open>
  The same happens when the send to observer 1 still goes through and its handler removes
  it during that send.
\<close>

lemma broadcast_skips_after_close:
  "active_connections closed_first = [2, 3]
   \<and> delivered closed_first 1 = [''result'']
   \<and> delivered closed_first 2 = []
   \<and> delivered closed_first 3 = [''result'']"
  by code_simp

text \<open>
  When no handler runs during the sends, one broadcast does what is expected of it: the
  observers whose send fails are exactly the ones removed, and every other registered
  observer receives the event.
\<close>

lemma active_disconnect: "active_connections (disconnect c mgr) = remove1 c (active_connections mgr)"
  by (simp add: disconnect_def Let_def remove1_idem)

lemma delivered_disconnect: "delivered (disconnect c mgr) = delivered mgr"
  by (simp add: disconnect_def Let_def)

lemma active_foldl_disconnect:
  "active_connections (foldl (\<lambda>m conn. disconnect conn m) mgr ds) = foldl (\<lambda>a c. remove1 c a) (active_connections mgr) ds"
  by (induction ds arbitrary: mgr) (simp_all add: active_disconnect)

lemma delivered_foldl_disconnect:
  "delivered (foldl (\<lambda>m conn. disconnect conn m) mgr ds) = delivered mgr"
  by (induction ds arbitrary: mgr) (simp_all add: delivered_disconnect)

lemma foldl_remove1_Cons:
  "x \<notin> set ds \<Longrightarrow> foldl (\<lambda>a c. remove1 c a) (x # ys) ds = x # foldl (\<lambda>a c. remove1 c a) ys ds"
  by (induction ds arbitrary: ys) auto

lemma foldl_remove1_filter:
  "foldl (\<lambda>a c. remove1 c a) xs (filter fails xs) = filter (\<lambda>c. \<not> fails c) xs"
  by (induction xs) (auto simp: foldl_remove1_Cons)

lemma send_loop_quiet:
  "n = length (active_connections mgr) - idx \<Longrightarrow>
   fst (send_loop fails [] msg idx (disc, mgr))
     = disc @ filter fails (drop idx (active_connections mgr))
   \<and> active_connections (snd (send_loop fails [] msg idx (disc, mgr))) = active_connections mgr
   \<and> delivered (snd (send_loop fails [] msg idx (disc, mgr))) c
       = delivered mgr c
         @ replicate (length (filter (\<lambda>x. x = c \<and> \<not> fails x) (drop idx (active_connections mgr)))) msg"
proof (induction n arbitrary: idx disc mgr)
  case 0
  then show ?case
    by (simp add: send_loop.simps)
next
  case (Suc n)
  let ?c = "active_connections mgr ! idx"
  have lt: "idx < length (active_connections mgr)"
    using Suc.prems by simp
  have dr: "drop idx (active_connections mgr) = ?c # drop (idx + 1) (active_connections mgr)"
    using lt by (simp add: Cons_nth_drop_Suc)
  obtain disc1 mgr1 where one: "try_send fails ?c msg [] (disc, mgr) = (disc1, mgr1)"
    by (metis prod.exhaust)
  have step: "disc1 = (if fails ?c then disc @ [?c] else disc)"
    "active_connections mgr1 = active_connections mgr"
    "delivered mgr1 c = (if ?c = c \<and> \<not> fails ?c then delivered mgr c @ [msg] else delivered mgr c)"
    using one by (auto simp: try_send_def split: if_splits)
  have n: "n = length (active_connections mgr1) - (idx + 1)"
    using Suc.prems step(2) by simp
  have unfold: "send_loop fails [] msg idx (disc, mgr) = send_loop fails [] msg (idx + 1) (disc1, mgr1)"
    using lt one by (simp add: send_loop.simps)
  show ?case
    unfolding unfold using Suc.IH [OF n, where disc=disc1] step
    by (auto simp: dr replicate_append_same)
qed

lemma broadcast_quiet:
  assumes "distinct (active_connections mgr)"
  shows "active_connections (broadcast fails [] msg mgr)
           = filter (\<lambda>c. \<not> fails c) (active_connections mgr)"
    and "delivered (broadcast fails [] msg mgr) c =
           (if c \<in> set (active_connections mgr) \<and> \<not> fails c
            then delivered mgr c @ [msg] else delivered mgr c)"
proof -
  obtain disc mgr1 where s: "send_loop fails [] msg 0 ([], mgr) = (disc, mgr1)"
    by (metis prod.exhaust)
  have q: "disc = filter fails (active_connections mgr)"
    "active_connections mgr1 = active_connections mgr"
    "delivered mgr1 c = delivered mgr c
       @ replicate (length (filter (\<lambda>x. x = c \<and> \<not> fails x) (active_connections mgr))) msg"
    using send_loop_quiet [of "length (active_connections mgr)" mgr 0 fails msg "[]" c]
    by (simp_all add: s)
  have f: "filter (\<lambda>x. x = c \<and> \<not> fails x) xs = (if c \<in> set xs \<and> \<not> fails c then [c] else [])"
    if "distinct xs" for xs
    using that by (induction xs) auto
  show "active_connections (broadcast fails [] msg mgr)
           = filter (\<lambda>c. \<not> fails c) (active_connections mgr)"
    by (simp add: broadcast_def s q active_foldl_disconnect foldl_remove1_filter)
  show "delivered (broadcast fails [] msg mgr) c =
           (if c \<in> set (active_connections mgr) \<and> \<not> fails c
            then delivered mgr c @ [msg] else delivered mgr c)"
    using assms by (simp add: broadcast_def s q delivered_foldl_disconnect f)
qed


section \<open>Start: range validation\<close>

text \<open>
  C6. For a session that is idle with data loaded, a request Start(s,e) is accepted if and
  only if \<open>0 \<le> s < e \<le> totalAutomotiveRecords\<close>. A range that violates a bound is
  rejected with a range error and the state unchanged, no background task being created;
  an accepted one sets the range and creates the task over the records \<open>s..e-1\<close>.
\<close>

theorem start_processing_range:
  assumes idle: "\<not> is_processing st" and data: "parts_data st = Some pd"
  shows "((\<exists>task. fst (start_processing new_id
              \<lparr>req_start_index = s, req_end_index = Some e, is_test = False\<rparr> st) = Inr task)
            \<longleftrightarrow> 0 \<le> s \<and> s < e \<and> e \<le> int (length (automotive pd)))
         \<and> (\<not> (0 \<le> s \<and> s < e \<and> e \<le> int (length (automotive pd))) \<longrightarrow>
              start_processing new_id
                \<lparr>req_start_index = s, req_end_index = Some e, is_test = False\<rparr> st
              \<in> {(Inl InvalidStartIndex, st), (Inl InvalidRange, st), (Inl InvalidEndIndex, st)})
         \<and> (0 \<le> s \<and> s < e \<and> e \<le> int (length (automotive pd)) \<longrightarrow>
              start_processing new_id
                \<lparr>req_start_index = s, req_end_index = Some e, is_test = False\<rparr> st
              = (Inr (take (nat (e - s)) (drop (nat s) (automotive pd)), s),
                 st\<lparr>is_processing := True, current_session_id := Some new_id,
                    start_index := s, end_index := e, processed_count := 0, results := [],
                    should_stop := False, error_message := None\<rparr>))"
proof -
  let ?r = "start_processing new_id
              \<lparr>req_start_index = s, req_end_index = Some e, is_test = False\<rparr> st"
  let ?total = "int (length (automotive pd))"
  have bad: "?r \<in> {(Inl InvalidStartIndex, st), (Inl InvalidRange, st), (Inl InvalidEndIndex, st)}"
    if "\<not> (0 \<le> s \<and> s < e \<and> e \<le> ?total)"
    using that idle data by (auto simp: start_processing_def Let_def)
  have sl: "slice s e (automotive pd) = take (nat (e - s)) (drop (nat s) (automotive pd))"
    if "0 \<le> s \<and> s < e \<and> e \<le> ?total"
    using that by (simp add: slice_def Let_def min_def)
  have good: "?r = (Inr (take (nat (e - s)) (drop (nat s) (automotive pd)), s),
                 st\<lparr>is_processing := True, current_session_id := Some new_id,
                    start_index := s, end_index := e, processed_count := 0, results := [],
                    should_stop := False, error_message := None\<rparr>)"
    if "0 \<le> s \<and> s < e \<and> e \<le> ?total"
    using that idle data sl by (simp add: start_processing_def Let_def)
  have iff: "(\<exists>task. fst ?r = Inr task) \<longleftrightarrow> 0 \<le> s \<and> s < e \<and> e \<le> ?total"
  proof
    assume "\<exists>task. fst ?r = Inr task"
    then show "0 \<le> s \<and> s < e \<and> e \<le> ?total"
      using bad by (cases "0 \<le> s \<and> s < e \<and> e \<le> ?total") auto
  next
    assume "0 \<le> s \<and> s < e \<and> e \<le> ?total"
    then show "\<exists>task. fst ?r = Inr task"
      using good by simp
  qed
  show ?thesis
    using iff bad good by blast
qed

theorem start_processing_range_witness:
  "\<not> is_processing (uploaded four)
   \<and> parts_data (uploaded four) = Some \<lparr>automotive = four, tools = [], unknown = []\<rparr>
   \<and> fst (start_processing ''s1''
            \<lparr>req_start_index = 1, req_end_index = Some 3, is_test = False\<rparr> (uploaded four))
       = Inr (take 2 (drop 1 four), 1)
   \<and> start_processing ''s1''
        \<lparr>req_start_index = 3, req_end_index = Some 5, is_test = False\<rparr> (uploaded four)
       = (Inl InvalidEndIndex, uploaded four)"
proof -
  have idle: "\<not> is_processing (uploaded four)"
    by (simp add: uploaded_def)
  have data: "parts_data (uploaded four) = Some \<lparr>automotive = four, tools = [], unknown = []\<rparr>"
    by (simp add: uploaded_def)
  have len: "length four = 4"
    by (simp add: four_def)
  have bad: "start_processing ''s1''
        \<lparr>req_start_index = 3, req_end_index = Some 5, is_test = False\<rparr> (uploaded four)
       \<noteq> (Inl InvalidStartIndex, uploaded four)"
    "start_processing ''s1''
        \<lparr>req_start_index = 3, req_end_index = Some 5, is_test = False\<rparr> (uploaded four)
       \<noteq> (Inl InvalidRange, uploaded four)"
    using len by (simp_all add: start_processing_def uploaded_def Let_def)
  show ?thesis
    using idle data bad
      start_processing_range [OF idle data, of "''s1''" 1 3]
      start_processing_range [OF idle data, of "''s1''" 3 5]
    by (simp add: len)
qed

section \<open>The worker loop\<close>

lemma stop_request_fields:
  "is_processing st \<Longrightarrow> should_stop (stop_request st)"
  "is_processing (stop_request st) = is_processing st"
  "processed_count (stop_request st) = processed_count st"
  "results (stop_request st) = results st"
  "error_message (stop_request st) = error_message st"
  "current_session_id (stop_request st) = current_session_id st"
  "make_leaderboard (stop_request st) = make_leaderboard st"
  "detector st \<noteq> None \<Longrightarrow> detector (stop_request st) \<noteq> None"
  "is_processing st \<Longrightarrow> detector st = Some Live \<Longrightarrow> detector (stop_request st) = Some Dead"
  "detector st = Some NoDriver \<Longrightarrow> detector (stop_request st) = Some NoDriver"
  by (auto simp: stop_request_def Let_def split: option.splits driver_status.splits)

lemma save_session_Inr:
  "save_session env st = Inr st' \<Longrightarrow> st' = st\<lparr>session_files := session_files st'\<rparr>"
  by (auto simp: save_session_def split: option.splits if_splits)

lemma save_session_not_fail:
  "\<not> save_fails env (processed_count st) \<Longrightarrow> \<exists>st'. save_session env st = Inr st'"
  by (auto simp: save_session_def split: option.splits)

lemma process_one_normal:
  assumes "stop_at env \<noteq> Some (i, AtProgress)" "stop_at env \<noteq> Some (i, AtResult)"
    and "\<not> should_stop st" "detector st \<noteq> Some Dead"
    and "\<not> save_fails env (next_count i (processed_count st))"
  shows "\<exists>st' tr'. process_one env s i p res (st, tr)
            = (Inr (res @ [enrich p (lookup env p)]), (st', tr'))
         \<and> \<not> should_stop st' \<and> detector st' = Some Live
         \<and> is_processing st' = is_processing st
         \<and> processed_count st' = next_count i (processed_count st)
         \<and> results st' = res @ [enrich p (lookup env p)]
         \<and> current_session_id st' = current_session_id st
         \<and> error_message st' = error_message st"
proof -
  let ?r = "enrich p (lookup env p)"
  let ?st4 = "st\<lparr>detector := Some Live, processed_count := next_count i (processed_count st),
                 results := res @ [?r],
                 make_leaderboard := update_leaderboard (makes ?r) (qty ?r) (make_leaderboard st)\<rparr>"
  have nf: "\<not> save_fails env (processed_count ?st4)"
    using assms(5) by simp
  obtain st5 where s5: "save_session env ?st4 = Inr st5"
    using save_session_not_fail [OF nf] by blast
  have e5: "st5 = ?st4\<lparr>session_files := session_files st5\<rparr>"
    using save_session_Inr [OF s5] .
  show ?thesis
  proof (cases "(i + 1) mod 10 = 0")
    case True
    have "process_one env s i p res (st, tr) = (Inr (res @ [?r]), (st5, tr @ [(ProgressEvent (s + int i) (processed_count st + i + 1), st), (ResultEvent (s + int i) ?r, st5)]))"
      using assms(1-4) True s5
      by (simp add: process_one_def Let_def await_def search_rockauto_def)
    moreover have "\<not> should_stop st5 \<and> detector st5 = Some Live
         \<and> is_processing st5 = is_processing st
         \<and> processed_count st5 = next_count i (processed_count st)
         \<and> results st5 = res @ [?r]
         \<and> current_session_id st5 = current_session_id st
         \<and> error_message st5 = error_message st"
      using assms(3) by (subst e5, simp)+
    ultimately show ?thesis by blast
  next
    case False
    have "process_one env s i p res (st, tr) = (Inr (res @ [?r]), (?st4, tr @ [(ProgressEvent (s + int i) (processed_count st + i + 1), st), (ResultEvent (s + int i) ?r, ?st4)]))"
      using assms(1-4) False
      by (simp add: process_one_def Let_def await_def search_rockauto_def)
    moreover have "\<not> should_stop ?st4 \<and> detector ?st4 = Some Live
         \<and> is_processing ?st4 = is_processing st
         \<and> processed_count ?st4 = next_count i (processed_count st)
         \<and> results ?st4 = res @ [?r]
         \<and> current_session_id ?st4 = current_session_id st
         \<and> error_message ?st4 = error_message st"
      using assms(3) by simp
    ultimately show ?thesis by blast
  qed
qed

lemma process_one_stop_at_result:
  assumes "stop_at env = Some (i, AtResult)"
    and "\<not> should_stop st" "is_processing st" "detector st \<noteq> Some Dead"
    and "\<not> save_fails env (next_count i (processed_count st))"
  shows "\<exists>st' tr'. process_one env s i p res (st, tr)
            = (Inr (res @ [enrich p (lookup env p)]), (st', tr'))
         \<and> should_stop st' \<and> is_processing st'
         \<and> error_message st' = error_message st"
proof -
  let ?r = "enrich p (lookup env p)"
  let ?st4 = "st\<lparr>detector := Some Live, processed_count := next_count i (processed_count st),
                 results := res @ [?r],
                 make_leaderboard := update_leaderboard (makes ?r) (qty ?r) (make_leaderboard st)\<rparr>"
  let ?tr1 = "tr @ [(ProgressEvent (s + int i) (processed_count st + i + 1), st)]"
  have np: "stop_at env \<noteq> Some (i, AtProgress)"
    using assms(1) by simp
  have nf: "\<not> save_fails env (processed_count ?st4)"
    using assms(5) by simp
  obtain st5 where s5: "save_session env ?st4 = Inr st5"
    using save_session_not_fail [OF nf] by blast
  have e5: "st5 = ?st4\<lparr>session_files := session_files st5\<rparr>"
    using save_session_Inr [OF s5] .
  have p5: "is_processing st5" "error_message st5 = error_message st"
    using assms(3) by (subst e5, simp)+
  show ?thesis
  proof (cases "(i + 1) mod 10 = 0")
    case True
    have "process_one env s i p res (st, tr)
        = (Inr (res @ [?r]), (stop_request st5, ?tr1 @ [(ResultEvent (s + int i) ?r, st5)]))"
      using assms(1,2,4) np True s5
      by (simp add: process_one_def Let_def await_def search_rockauto_def)
    then show ?thesis
      using p5 by (simp add: stop_request_fields)
  next
    case False
    have "process_one env s i p res (st, tr)
        = (Inr (res @ [?r]), (stop_request ?st4, ?tr1 @ [(ResultEvent (s + int i) ?r, ?st4)]))"
      using assms(1,2,4) np False
      by (simp add: process_one_def Let_def await_def search_rockauto_def)
    then show ?thesis
      using assms(3) by (simp add: stop_request_fields)
  qed
qed

lemma search_after_stop:
  assumes "is_processing st" "state_visible env \<or> detector st = Some Live"
  shows "search_rockauto env p (stop_request st) = (None, stop_request st)"
proof (cases "state_visible env")
  case True
  then show ?thesis
    using assms(1) by (simp add: search_rockauto_def stop_request_fields)
next
  case False
  then have "detector (stop_request st) = Some Dead"
    using assms by (simp add: stop_request_fields)
  then show ?thesis
    by (simp add: search_rockauto_def)
qed

lemma process_one_stop_at_progress:
  assumes "stop_at env = Some (i, AtProgress)"
    and "\<not> should_stop st" "is_processing st"
    and "state_visible env \<or> detector st = Some Live"
    and "\<not> save_fails env (next_count i (processed_count st))"
  shows "\<exists>st' tr'. process_one env s i p res (st, tr)
            = (Inr (res @ [enrich p None]), (st', tr'))
         \<and> should_stop st' \<and> is_processing st'
         \<and> error_message st' = error_message st"
proof -
  let ?r = "enrich p None"
  let ?q = "stop_request st"
  let ?st4 = "?q\<lparr>processed_count := next_count i (processed_count ?q),
                 results := res @ [?r],
                 make_leaderboard := update_leaderboard (makes ?r) (qty ?r) (make_leaderboard ?q)\<rparr>"
  let ?tr1 = "tr @ [(ProgressEvent (s + int i) (processed_count st + i + 1), st)]"
  have nr: "stop_at env \<noteq> Some (i, AtResult)"
    using assms(1) by simp
  have se: "search_rockauto env p ?q = (None, ?q)"
    using assms(3,4) by (rule search_after_stop)
  have nf: "\<not> save_fails env (processed_count ?st4)"
    using assms(5) by (simp add: stop_request_fields)
  obtain st5 where s5: "save_session env ?st4 = Inr st5"
    using save_session_not_fail [OF nf] by blast
  have e5: "st5 = ?st4\<lparr>session_files := session_files st5\<rparr>"
    using save_session_Inr [OF s5] .
  have p4: "should_stop ?st4" "is_processing ?st4" "error_message ?st4 = error_message st"
    using assms(3) by (simp_all add: stop_request_fields)
  have p5: "should_stop st5" "is_processing st5" "error_message st5 = error_message st"
    using p4 by (subst e5, simp)+
  show ?thesis
  proof (cases "(i + 1) mod 10 = 0")
    case True
    have "process_one env s i p res (st, tr)
        = (Inr (res @ [?r]), (st5, ?tr1 @ [(ResultEvent (s + int i) ?r, st5)]))"
      using assms(1) nr True s5 se
      by (simp add: process_one_def Let_def await_def)
    then show ?thesis
      using p5 by simp
  next
    case False
    have "process_one env s i p res (st, tr)
        = (Inr (res @ [?r]), (?st4, ?tr1 @ [(ResultEvent (s + int i) ?r, ?st4)]))"
      using assms(1) nr False se
      by (simp add: process_one_def Let_def await_def)
    then show ?thesis
      using p4 by simp
  qed
qed

lemma process_one_stop_before_browser:
  assumes "stop_at env = Some (i, AtProgress)"
    and "\<not> should_stop st" "is_processing st"
    and "\<not> state_visible env" "detector st = Some NoDriver"
    and "\<not> save_fails env (next_count i (processed_count st))"
  shows "\<exists>st' tr'. process_one env s i p res (st, tr)
            = (Inr (res @ [enrich p (lookup env p)]), (st', tr'))
         \<and> should_stop st' \<and> is_processing st'
         \<and> error_message st' = error_message st"
proof -
  let ?r = "enrich p (lookup env p)"
  let ?q = "stop_request st"
  let ?st4 = "?q\<lparr>detector := Some Live, processed_count := next_count i (processed_count ?q),
                 results := res @ [?r],
                 make_leaderboard := update_leaderboard (makes ?r) (qty ?r) (make_leaderboard ?q)\<rparr>"
  let ?tr1 = "tr @ [(ProgressEvent (s + int i) (processed_count st + i + 1), st)]"
  have nr: "stop_at env \<noteq> Some (i, AtResult)"
    using assms(1) by simp
  have se: "search_rockauto env p ?q = (lookup env p, ?q\<lparr>detector := Some Live\<rparr>)"
    using assms(4,5) by (simp add: search_rockauto_def stop_request_fields)
  have nf: "\<not> save_fails env (processed_count ?st4)"
    using assms(6) by (simp add: stop_request_fields)
  obtain st5 where s5: "save_session env ?st4 = Inr st5"
    using save_session_not_fail [OF nf] by blast
  have e5: "st5 = ?st4\<lparr>session_files := session_files st5\<rparr>"
    using save_session_Inr [OF s5] .
  have p4: "should_stop ?st4" "is_processing ?st4" "error_message ?st4 = error_message st"
    using assms(3) by (simp_all add: stop_request_fields)
  have p5: "should_stop st5" "is_processing st5" "error_message st5 = error_message st"
    using p4 by (subst e5, simp)+
  show ?thesis
  proof (cases "(i + 1) mod 10 = 0")
    case True
    have "process_one env s i p res (st, tr)
        = (Inr (res @ [?r]), (st5, ?tr1 @ [(ResultEvent (s + int i) ?r, st5)]))"
      using assms(1) nr True s5 se
      by (simp add: process_one_def Let_def await_def)
    then show ?thesis
      using p5 by simp
  next
    case False
    have "process_one env s i p res (st, tr)
        = (Inr (res @ [?r]), (?st4, ?tr1 @ [(ResultEvent (s + int i) ?r, ?st4)]))"
      using assms(1) nr False se
      by (simp add: process_one_def Let_def await_def)
    then show ?thesis
      using p4 by simp
  qed
qed

lemma batch_loop_stopped:
  "should_stop st \<Longrightarrow> batch_loop env s i ps res (st, tr) = (Inr res, (st, tr))"
  by (cases ps) simp_all

lemma batch_loop_until_stop:
  assumes stop: "stop_at env = Some (k, ph)" and saves: "\<forall>n. \<not> save_fails env n"
  shows "is_processing st \<Longrightarrow> \<not> should_stop st \<Longrightarrow> detector st \<noteq> Some Dead \<Longrightarrow>
     detector st \<noteq> None \<Longrightarrow> i \<le> k \<Longrightarrow> k < i + length ps \<Longrightarrow>
     \<exists>st' tr'. batch_loop env s i ps res (st, tr)
        = (Inr (res @ map (\<lambda>p. enrich p (lookup env p)) (take (k - i) ps)
                 @ [enrich (ps ! (k - i))
                      (if ph = AtProgress \<and> (state_visible env \<or> i < k \<or> detector st = Some Live)
                       then None else lookup env (ps ! (k - i)))]),
           (st', tr'))
      \<and> should_stop st' \<and> is_processing st' \<and> error_message st' = error_message st"
proof (induction ps arbitrary: i res st tr)
  case Nil
  then show ?case by simp
next
  case (Cons p rest)
  have nf: "\<not> save_fails env (next_count i (processed_count st))"
    using saves by simp
  show ?case
  proof (cases "i = k")
    case True
    let ?ans = "if ph = AtProgress \<and> (state_visible env \<or> detector st = Some Live)
                then None else lookup env p"
    have "\<exists>st' tr'. process_one env s i p res (st, tr) = (Inr (res @ [enrich p ?ans]), (st', tr'))
         \<and> should_stop st' \<and> is_processing st' \<and> error_message st' = error_message st"
    proof (cases ph)
      case AtResult
      then show ?thesis
        using process_one_stop_at_result [where env=env and i=i and st=st and p=p and s=s and res=res and tr=tr] stop True Cons.prems nf
        by simp
    next
      case AtProgress
      show ?thesis
      proof (cases "state_visible env \<or> detector st = Some Live")
        case True
        then show ?thesis
          using process_one_stop_at_progress [where env=env and i=i and st=st and p=p and s=s and res=res and tr=tr] stop \<open>i = k\<close> AtProgress
            Cons.prems nf
          by simp
      next
        case False
        then have "detector st = Some NoDriver"
          using Cons.prems(3,4) by (cases "detector st") (auto intro: driver_status.exhaust)
        then show ?thesis
          using process_one_stop_before_browser [where env=env and i=i and st=st and p=p and s=s and res=res and tr=tr] stop \<open>i = k\<close> AtProgress
            Cons.prems nf False
          by simp
      qed
    qed
    then obtain st' tr' where
      one: "process_one env s i p res (st, tr) = (Inr (res @ [enrich p ?ans]), (st', tr'))"
      and after: "should_stop st'" "is_processing st'" "error_message st' = error_message st"
      by blast
    have "batch_loop env s i (p # rest) res (st, tr) = (Inr (res @ [enrich p ?ans]), (st', tr'))"
      using Cons.prems(2) one after(1) by (simp add: batch_loop_stopped)
    then show ?thesis
      using True after by (auto simp del: batch_loop.simps)
  next
    case False
    then have less: "i < k"
      using Cons.prems(5) by simp
    have ns: "stop_at env \<noteq> Some (i, AtProgress)" "stop_at env \<noteq> Some (i, AtResult)"
      using stop False by simp_all
    from process_one_normal [OF ns Cons.prems(2,3) nf, of s p res tr]
    obtain st1 tr1 where
      one: "process_one env s i p res (st, tr) = (Inr (res @ [enrich p (lookup env p)]), (st1, tr1))"
      and after: "\<not> should_stop st1" "detector st1 = Some Live" "is_processing st1 = is_processing st"
        "error_message st1 = error_message st"
      by blast
    have pre: "is_processing st1" "detector st1 \<noteq> Some Dead" "detector st1 \<noteq> None"
      "i + 1 \<le> k" "k < (i + 1) + length rest"
      using after Cons.prems(1,6) less by simp_all
    from Cons.IH [OF pre(1) after(1) pre(2,3,4,5), of "res @ [enrich p (lookup env p)]" tr1]
    obtain st' tr' where
      rec: "batch_loop env s (i + 1) rest (res @ [enrich p (lookup env p)]) (st1, tr1)
        = (Inr ((res @ [enrich p (lookup env p)])
                 @ map (\<lambda>p. enrich p (lookup env p)) (take (k - (i + 1)) rest)
                 @ [enrich (rest ! (k - (i + 1)))
                      (if ph = AtProgress \<and> (state_visible env \<or> i + 1 < k \<or> detector st1 = Some Live)
                       then None else lookup env (rest ! (k - (i + 1))))]),
           (st', tr'))"
      and fin: "should_stop st'" "is_processing st'" "error_message st' = error_message st1"
      by blast
    have idx: "k - i = Suc (k - (i + 1))"
      using less by simp
    have "batch_loop env s i (p # rest) res (st, tr)
        = batch_loop env s (i + 1) rest (res @ [enrich p (lookup env p)]) (st1, tr1)"
      using Cons.prems(2) one by simp
    then show ?thesis
      using rec fin after(2,4) less by (simp add: idx del: batch_loop.simps)
  qed
qed

lemma close_browser_fields:
  "should_stop (close_browser st) = should_stop st"
  "is_processing (close_browser st) = is_processing st"
  "error_message (close_browser st) = error_message st"
  "results (close_browser st) = results st"
  "processed_count (close_browser st) = processed_count st"
  by (auto simp: close_browser_def split: option.splits driver_status.splits)

section \<open>Stop\<close>

text \<open>
  C4 (as the code has it). A Stop request is handled while the worker awaits the sending
  of a progress or result event. The worker reads the stop flag at the top of every loop
  iteration and \<open>search_rockauto\<close> reads it again before the fetch; Stop also quits a
  started browser at once. So with a Stop handled at record \<open>k\<close> of a run whose checkpoint
  writes succeed, the run ends with exactly \<open>k + 1\<close> results, the records before \<open>k\<close>
  looked up normally: if the Stop came during the result event of record \<open>k\<close>, that record
  was finished normally and nothing is appended after the Stop; if it came during its
  progress event, one result is appended after the Stop, and it is \<open>NOT_FOUND\<close> without
  any fetch whenever the lookup can see the flag or the browser had been started.
\<close>

theorem stop_takes_effect_within_one_record:
  assumes run: "is_processing st" "\<not> should_stop st" "detector st = Some d" "d \<noteq> Dead"
    and stop: "stop_at env = Some (k, ph)" "k < length parts"
    and saves: "\<forall>n. \<not> save_fails env n"
  shows "results (fst (process_parts_background env parts s (st, tr)))
           = map (\<lambda>p. enrich p (lookup env p)) (take k parts)
             @ [enrich (parts ! k)
                  (if ph = AtProgress \<and> (state_visible env \<or> 0 < k \<or> d = Live)
                   then None else lookup env (parts ! k))]
         \<and> length (results (fst (process_parts_background env parts s (st, tr)))) = k + 1
         \<and> (ph = AtProgress \<and> (state_visible env \<or> 0 < k \<or> d = Live) \<longrightarrow>
              makes (results (fst (process_parts_background env parts s (st, tr))) ! k)
                = ''NOT_FOUND'')
         \<and> should_stop (fst (process_parts_background env parts s (st, tr)))
         \<and> \<not> is_processing (fst (process_parts_background env parts s (st, tr)))
         \<and> error_message (fst (process_parts_background env parts s (st, tr))) = error_message st"
proof -
  define ans where "ans = (if ph = AtProgress \<and> (state_visible env \<or> 0 < k \<or> d = Live)
                   then None else lookup env (parts ! k))"
  define res where "res = map (\<lambda>p. enrich p (lookup env p)) (take k parts)
             @ [enrich (parts ! k) ans]"
  have d: "detector st \<noteq> Some Dead" "detector st \<noteq> None"
    using run(3,4) by simp_all
  have k: "0 \<le> k" "k < 0 + length parts"
    using stop(2) by simp_all
  have "\<exists>st' tr'. batch_loop env s 0 parts [] (st, tr) = (Inr res, (st', tr'))
      \<and> should_stop st' \<and> is_processing st' \<and> error_message st' = error_message st"
    using batch_loop_until_stop [OF stop(1) saves run(1,2) d k, of s "[]" tr]
    unfolding diff_zero append_Nil run(3) option.inject res_def ans_def .
  then obtain st' tr' where
    loop: "batch_loop env s 0 parts [] (st, tr) = (Inr res, (st', tr'))"
    and fin: "should_stop st'" "is_processing st'" "error_message st' = error_message st"
    by blast
  have "process_parts_batch_async env parts (length parts) s (st, tr)
      = (Inr res, (close_browser st', tr'))"
    using loop by (simp add: process_parts_batch_async_def)
  then have bg: "process_parts_background env parts s (st, tr)
      = ((close_browser st')\<lparr>results := res, is_processing := False\<rparr>, tr')"
    using d(2) fin(1) by (auto simp: process_parts_background_def close_browser_fields)
  have nf: "makes (enrich p None) = ''NOT_FOUND''" for p
    by (simp add: enrich_def with_makes_def)
  have len: "length res = k + 1"
    using stop(2) by (simp add: res_def)
  have kth: "res ! k = enrich (parts ! k) ans"
    using stop(2) by (simp add: res_def nth_append)
  have miss: "ph = AtProgress \<and> (state_visible env \<or> 0 < k \<or> d = Live) \<longrightarrow>
      makes (res ! k) = ''NOT_FOUND''"
    by (simp add: kth ans_def nf)
  have r: "results (fst (process_parts_background env parts s (st, tr))) = res"
    by (simp add: bg)
  have c1: "results (fst (process_parts_background env parts s (st, tr)))
           = map (\<lambda>p. enrich p (lookup env p)) (take k parts)
             @ [enrich (parts ! k)
                  (if ph = AtProgress \<and> (state_visible env \<or> 0 < k \<or> d = Live)
                   then None else lookup env (parts ! k))]"
    by (simp only: r res_def ans_def)
  have c2: "length (results (fst (process_parts_background env parts s (st, tr)))) = k + 1"
    by (simp only: r len)
  have c3: "ph = AtProgress \<and> (state_visible env \<or> 0 < k \<or> d = Live) \<longrightarrow>
              makes (results (fst (process_parts_background env parts s (st, tr))) ! k)
                = ''NOT_FOUND''"
    using miss by (simp only: r)
  have c4: "should_stop (fst (process_parts_background env parts s (st, tr)))"
    "\<not> is_processing (fst (process_parts_background env parts s (st, tr)))"
    "error_message (fst (process_parts_background env parts s (st, tr))) = error_message st"
    using fin by (simp_all add: bg close_browser_fields)
  show ?thesis
    using c1 c2 c3 c4 by (intro conjI)
qed

theorem stop_takes_effect_within_one_record_witness:
  "is_processing started_four \<and> \<not> should_stop started_four
   \<and> detector started_four = Some NoDriver
   \<and> stop_at (env0\<lparr>stop_at := Some (1, AtProgress)\<rparr>) = Some (1, AtProgress)
   \<and> 1 < length four
   \<and> length (results (fst (process_parts_background (env0\<lparr>stop_at := Some (1, AtProgress)\<rparr>)
                              four 0 (started_four, [])))) = 2
   \<and> makes (results (fst (process_parts_background (env0\<lparr>stop_at := Some (1, AtProgress)\<rparr>)
                              four 0 (started_four, []))) ! 1) = ''NOT_FOUND''"
proof -
  have run: "is_processing started_four" "\<not> should_stop started_four"
    "detector started_four = Some NoDriver"
    by code_simp+
  have d: "NoDriver \<noteq> Dead"
    by simp
  have stop: "stop_at (env0\<lparr>stop_at := Some (1, AtProgress)\<rparr>) = Some (1, AtProgress)"
    by simp
  have k: "1 < length four"
    by (simp add: four_def)
  have saves: "\<forall>n. \<not> save_fails (env0\<lparr>stop_at := Some (1, AtProgress)\<rparr>) n"
    by (simp add: env0_def)
  have z: "(0::nat) < 1"
    by simp
  note t = stop_takes_effect_within_one_record [OF run d stop k saves, of 0 "[]"]
  have "length (results (fst (process_parts_background (env0\<lparr>stop_at := Some (1, AtProgress)\<rparr>)
                              four 0 (started_four, [])))) = 1 + 1"
    using t by blast
  moreover have "makes (results (fst (process_parts_background
              (env0\<lparr>stop_at := Some (1, AtProgress)\<rparr>) four 0 (started_four, []))) ! 1)
            = ''NOT_FOUND''"
    using t z by blast
  ultimately show ?thesis
    using run stop k by simp
qed

text \<open>
  Start(0,4) where every lookup would answer Ford, and a Stop handled while the progress
  event of the second record is sent: the second record is logged as \<open>NOT_FOUND\<close> with
  source \<open>NONE\<close>, whether the lookup sees the flag or finds the browser quit.
\<close>

theorem stop_during_progress_counterexample:
  "lookup env0 (four ! 1) = Some [''Ford'']
   \<and> map makes (results (fst stop_mid_record)) = [''Ford'', ''NOT_FOUND'']
   \<and> source (results (fst stop_mid_record) ! 1) = ''NONE''
   \<and> map makes (results (fst stop_mid_record_unseen)) = [''Ford'', ''NOT_FOUND'']"
  by code_simp

section \<open>Checkpoint failures\<close>

lemma next_count_same: "next_count i i = i + 1"
  by (simp add: next_count_def)

lemma process_one_save_fails:
  assumes "stop_at env \<noteq> Some (i, AtProgress)"
    and "\<not> should_stop st" "detector st \<noteq> Some Dead"
    and "current_session_id st = Some sid" "sid \<noteq> []"
    and "(i + 1) mod 10 = 0" "save_fails env (next_count i (processed_count st))"
  shows "\<exists>st' tr'. process_one env s i p res (st, tr) = (Inl CheckpointWriteFailed, (st', tr'))
         \<and> is_processing st' = is_processing st
         \<and> processed_count st' = next_count i (processed_count st)
         \<and> results st' = res @ [enrich p (lookup env p)]"
proof -
  let ?r = "enrich p (lookup env p)"
  let ?st4 = "st\<lparr>detector := Some Live, processed_count := next_count i (processed_count st),
                 results := res @ [?r],
                 make_leaderboard := update_leaderboard (makes ?r) (qty ?r) (make_leaderboard st)\<rparr>"
  have "save_session env ?st4 = Inl CheckpointWriteFailed"
    using assms(4,5,7) by (simp add: save_session_def)
  then have "process_one env s i p res (st, tr)
      = (Inl CheckpointWriteFailed,
         (?st4, tr @ [(ProgressEvent (s + int i) (processed_count st + i + 1), st)]))"
    using assms(1,2,3,6) by (simp add: process_one_def Let_def await_def search_rockauto_def)
  then show ?thesis
    by simp
qed

lemma next_count_add: "next_count i (c0 + i) = c0 + i + 1"
  by (simp add: next_count_def)

lemma process_one_step:
  assumes "current_session_id st = Some sid" "sid \<noteq> []"
  shows "\<exists>r. results (fst (snd (process_one env s i p res (st, tr)))) = res @ [r]
           \<and> fst (process_one env s i p res (st, tr))
               = (if (i + 1) mod 10 = 0 \<and> save_fails env (next_count i (processed_count st))
                  then Inl CheckpointWriteFailed else Inr (res @ [r]))"
    and "processed_count (fst (snd (process_one env s i p res (st, tr))))
           = next_count i (processed_count st)"
    and "current_session_id (fst (snd (process_one env s i p res (st, tr))))
           = current_session_id st"
    and "is_processing (fst (snd (process_one env s i p res (st, tr)))) = is_processing st"
    and "error_message (fst (snd (process_one env s i p res (st, tr)))) = error_message st"
    and "stop_at env \<noteq> Some (i, AtProgress) \<Longrightarrow> stop_at env \<noteq> Some (i, AtResult) \<Longrightarrow>
         should_stop (fst (snd (process_one env s i p res (st, tr)))) = should_stop st"
  using assms
  by (auto simp: process_one_def Let_def await_def search_rockauto_def save_session_def
      stop_request_def
      split: option.splits driver_status.splits if_splits sum.splits)

lemma batch_loop_reaches_failure:
  assumes reach: "\<forall>k ph. stop_at env = Some (k, ph) \<longrightarrow> F \<le> k + 1"
    and fails: "save_fails env (c0 + F)" "F mod 10 = 0"
    and before: "\<forall>n<F. \<not> save_fails env (c0 + n)"
  shows "\<not> should_stop st \<Longrightarrow> current_session_id st = Some sid \<Longrightarrow> sid \<noteq> [] \<Longrightarrow>
     processed_count st = c0 + i \<Longrightarrow> i < F \<Longrightarrow> F \<le> i + length ps \<Longrightarrow> length res = i \<Longrightarrow>
     \<exists>st' tr'. batch_loop env s i ps res (st, tr) = (Inl CheckpointWriteFailed, (st', tr'))
       \<and> is_processing st' = is_processing st
       \<and> error_message st' = error_message st
       \<and> processed_count st' = c0 + F
       \<and> length (results st') = F"
proof (induction ps arbitrary: i res st tr)
  case Nil
  then show ?case by simp
next
  case (Cons p rest)
  obtain r0 st1 tr1 where one: "process_one env s i p res (st, tr) = (r0, (st1, tr1))"
    by (metis prod.exhaust)
  note step = process_one_step [OF Cons.prems(2,3), where env=env and s=s and i=i and p=p
      and res=res and tr=tr, unfolded one fst_conv snd_conv]
  have nc: "next_count i (processed_count st) = c0 + i + 1"
    using Cons.prems(4) by (simp add: next_count_add)
  obtain r where r: "results st1 = res @ [r]"
    "r0 = (if (i + 1) mod 10 = 0 \<and> save_fails env (c0 + i + 1)
           then Inl CheckpointWriteFailed else Inr (res @ [r]))"
    using step(1) nc by auto
  show ?case
  proof (cases "i + 1 = F")
    case True
    have "save_fails env (c0 + i + 1)" "(i + 1) mod 10 = 0"
      using fails unfolding True [symmetric] by (simp_all add: add.assoc)
    then have "r0 = Inl CheckpointWriteFailed"
      using r(2) by simp
    then have "batch_loop env s i (p # rest) res (st, tr) = (Inl CheckpointWriteFailed, (st1, tr1))"
      using Cons.prems(1) one by simp
    moreover have "processed_count st1 = c0 + F" "length (results st1) = F"
      using step(2) nc r(1) Cons.prems(7) True by simp_all
    ultimately show ?thesis
      using step(4,5) by (simp del: batch_loop.simps)
  next
    case False
    then have less: "i + 1 < F"
      using Cons.prems(5) by simp
    have "\<not> save_fails env (c0 + (i + 1))"
      using before less by blast
    then have r0: "r0 = Inr (res @ [r])"
      using r(2) by (simp add: add.assoc)
    have ns: "stop_at env \<noteq> Some (i, AtProgress)" "stop_at env \<noteq> Some (i, AtResult)"
      using reach less by auto
    have pre: "\<not> should_stop st1" "current_session_id st1 = Some sid"
      "processed_count st1 = c0 + (i + 1)" "F \<le> (i + 1) + length rest"
      "length (res @ [r]) = i + 1"
      using step(6) [OF ns] step(2,3) nc Cons.prems(1,2,6,7) by simp_all
    from Cons.IH [OF pre(1,2) Cons.prems(3) pre(3) less pre(4,5), of tr1]
    obtain st' tr' where
      rec: "batch_loop env s (i + 1) rest (res @ [r]) (st1, tr1)
              = (Inl CheckpointWriteFailed, (st', tr'))"
      and fin: "is_processing st' = is_processing st1" "error_message st' = error_message st1"
        "processed_count st' = c0 + F" "length (results st') = F"
      by blast
    have "batch_loop env s i (p # rest) res (st, tr)
        = batch_loop env s (i + 1) rest (res @ [r]) (st1, tr1)"
      using Cons.prems(1) one r0 by simp
    then show ?thesis
      using rec fin step(4,5) by (simp del: batch_loop.simps)
  qed
qed

lemma batch_loop_results_before_failure:
  assumes nostop: "stop_at env = None"
    and fails: "save_fails env (c0 + F)" "F mod 10 = 0"
    and before: "\<forall>n<F. \<not> save_fails env (c0 + n)"
  shows "\<not> should_stop st \<Longrightarrow> detector st \<noteq> Some Dead \<Longrightarrow> current_session_id st = Some sid \<Longrightarrow>
     sid \<noteq> [] \<Longrightarrow> processed_count st = c0 + i \<Longrightarrow> i < F \<Longrightarrow> F \<le> i + length ps \<Longrightarrow>
     results (fst (snd (batch_loop env s i ps res (st, tr))))
       = res @ map (\<lambda>p. enrich p (lookup env p)) (take (F - i) ps)"
proof (induction ps arbitrary: i res st tr)
  case Nil
  then show ?case by simp
next
  case (Cons p rest)
  have ns: "stop_at env \<noteq> Some (i, AtProgress)" "stop_at env \<noteq> Some (i, AtResult)"
    using nostop by simp_all
  have nc: "next_count i (processed_count st) = c0 + (i + 1)"
    using Cons.prems(5) by (simp add: next_count_add)
  show ?case
  proof (cases "i + 1 = F")
    case True
    have "(i + 1) mod 10 = 0" "save_fails env (next_count i (processed_count st))"
      using True fails nc by simp_all
    from process_one_save_fails [OF ns(1) Cons.prems(1,2,3,4) this, of s p res tr]
    obtain st' tr' where
      one: "process_one env s i p res (st, tr) = (Inl CheckpointWriteFailed, (st', tr'))"
      and after: "results st' = res @ [enrich p (lookup env p)]"
      by blast
    have "batch_loop env s i (p # rest) res (st, tr) = (Inl CheckpointWriteFailed, (st', tr'))"
      using Cons.prems(1) one by simp
    moreover have "F - i = Suc 0"
      using True by simp
    ultimately show ?thesis
      using after by (simp del: batch_loop.simps)
  next
    case False
    then have less: "i + 1 < F"
      using Cons.prems(6) by simp
    have "\<not> save_fails env (c0 + (i + 1))"
      using before less by blast
    then have nf: "\<not> save_fails env (next_count i (processed_count st))"
      using nc by simp
    from process_one_normal [OF ns Cons.prems(1,2) nf, of s p res tr]
    obtain st1 tr1 where
      one: "process_one env s i p res (st, tr) = (Inr (res @ [enrich p (lookup env p)]), (st1, tr1))"
      and after: "\<not> should_stop st1" "detector st1 = Some Live"
        "processed_count st1 = next_count i (processed_count st)"
        "current_session_id st1 = current_session_id st"
      by blast
    have pre: "detector st1 \<noteq> Some Dead" "current_session_id st1 = Some sid"
      "processed_count st1 = c0 + (i + 1)" "F \<le> (i + 1) + length rest"
      using after nc Cons.prems(3,7) by simp_all
    have idx: "F - i = Suc (F - (i + 1))"
      using less by simp
    have "batch_loop env s i (p # rest) res (st, tr)
        = batch_loop env s (i + 1) rest (res @ [enrich p (lookup env p)]) (st1, tr1)"
      using Cons.prems(1) one by simp
    then show ?thesis
      using Cons.IH [OF after(1) pre(1,2) Cons.prems(4) pre(3) less pre(4),
          of "res @ [enrich p (lookup env p)]" tr1]
      by (simp add: idx del: batch_loop.simps)
  qed
qed

text \<open>
  C5 (as the code has it). The worker loop writes a checkpoint after every 10th record of
  its batch. Take a run, fresh or resumed, whose first failing write is the one after
  record \<open>F\<close> of the batch, and which no Stop has ended before that write. The exception
  leaves the worker loop and the run ends: the state gets the error message,
  \<open>is_processing\<close> is cleared and an error event is broadcast last. The records after
  the failing write are not processed: \<open>processed_count\<close> stands at its value at the start
  of the batch plus \<open>F\<close>, and the result log holds \<open>F\<close> results, those of this batch;
  with no Stop at all and a browser that was not quit they are the lookups' results for
  the first \<open>F\<close> records of the batch.
\<close>

theorem checkpoint_failure_ends_run:
  assumes run: "\<not> should_stop st" "detector st \<noteq> None"
      "current_session_id st = Some sid" "sid \<noteq> []"
    and reach: "\<forall>k ph. stop_at env = Some (k, ph) \<longrightarrow> F \<le> k + 1"
    and fails: "save_fails env (processed_count st + F)" "0 < F" "F mod 10 = 0"
      "F \<le> length parts"
    and before: "\<forall>n<F. \<not> save_fails env (processed_count st + n)"
  shows "error_message (fst (process_parts_background env parts s (st, tr)))
           = Some CheckpointWriteFailed
         \<and> \<not> is_processing (fst (process_parts_background env parts s (st, tr)))
         \<and> processed_count (fst (process_parts_background env parts s (st, tr)))
             = processed_count st + F
         \<and> length (results (fst (process_parts_background env parts s (st, tr)))) = F
         \<and> fst (last (snd (process_parts_background env parts s (st, tr))))
             = ErrorEvent CheckpointWriteFailed
         \<and> (stop_at env = None \<and> detector st \<noteq> Some Dead \<longrightarrow>
              results (fst (process_parts_background env parts s (st, tr)))
                = map (\<lambda>p. enrich p (lookup env p)) (take F parts))"
proof -
  obtain d where d: "detector st = Some d"
    using run(2) by auto
  have c: "processed_count st = processed_count st + 0"
    by simp
  have le: "F \<le> 0 + length parts" and len: "length ([] :: enriched list) = 0"
    using fails(4) by simp_all
  from batch_loop_reaches_failure [OF reach fails(1,3) before run(1,3,4) c fails(2) le len,
      of s tr]
  obtain st' tr' where
    loop: "batch_loop env s 0 parts [] (st, tr) = (Inl CheckpointWriteFailed, (st', tr'))"
    and fin: "processed_count st' = processed_count st + F" "length (results st') = F"
    by (auto simp del: batch_loop.simps)
  have "process_parts_batch_async env parts (length parts) s (st, tr)
      = (Inl CheckpointWriteFailed, (st', tr'))"
    using loop by (simp add: process_parts_batch_async_def)
  then have bg: "process_parts_background env parts s (st, tr)
      = failed CheckpointWriteFailed (st', tr')"
    using d by (simp add: process_parts_background_def)
  have content: "results st' = map (\<lambda>p. enrich p (lookup env p)) (take F parts)"
    if "stop_at env = None" "detector st \<noteq> Some Dead"
    using batch_loop_results_before_failure [OF that(1) fails(1,3) before run(1) that(2)
        run(3,4) c fails(2) le, of s "[]" tr]
    by (simp add: loop del: batch_loop.simps)
  show ?thesis
    unfolding bg using fin content by (simp add: failed_def Let_def)
qed


theorem checkpoint_failure_ends_run_witness:
  "resume_session ''s1'' (fst stopped_twelve) = (Inr (drop 2 twelve, 2), resumed_twelve)
   \<and> \<not> should_stop resumed_twelve \<and> detector resumed_twelve \<noteq> None
   \<and> current_session_id resumed_twelve = Some ''s1'' \<and> processed_count resumed_twelve = 2
   \<and> stop_at late_failing_env = None \<and> save_fails late_failing_env 12
   \<and> 10 \<le> length (drop 2 twelve)
   \<and> error_message (fst (process_parts_background late_failing_env (drop 2 twelve) 2
                            (resumed_twelve, []))) = Some CheckpointWriteFailed
   \<and> \<not> is_processing (fst (process_parts_background late_failing_env (drop 2 twelve) 2
                               (resumed_twelve, [])))
   \<and> processed_count (fst (process_parts_background late_failing_env (drop 2 twelve) 2
                              (resumed_twelve, []))) = 12
   \<and> length (results (fst (process_parts_background late_failing_env (drop 2 twelve) 2
                             (resumed_twelve, [])))) = 10"
proof -
  have resumed: "resume_session ''s1'' (fst stopped_twelve)
      = (Inr (drop 2 twelve, 2), resumed_twelve)"
    by code_simp
  have run: "\<not> should_stop resumed_twelve" "detector resumed_twelve \<noteq> None"
    "current_session_id resumed_twelve = Some ''s1''" "''s1'' \<noteq> []"
    by code_simp+
  have c: "processed_count resumed_twelve = 2"
    by code_simp
  have nostop: "stop_at late_failing_env = None"
    by (simp add: late_failing_env_def env0_def)
  then have reach: "\<forall>k ph. stop_at late_failing_env = Some (k, ph) \<longrightarrow> 10 \<le> k + 1"
    by simp
  have fails: "save_fails late_failing_env (processed_count resumed_twelve + 10)"
    "(0::nat) < 10" "(10::nat) mod 10 = 0" "10 \<le> length (drop 2 twelve)"
    by (simp_all add: c late_failing_env_def twelve_def)
  have before: "\<forall>n<10. \<not> save_fails late_failing_env (processed_count resumed_twelve + n)"
    by (simp add: c late_failing_env_def)
  have twelve: "save_fails late_failing_env 12"
    by (simp add: late_failing_env_def)
  note t = checkpoint_failure_ends_run [OF run reach fails before, of 2 "[]"]
  have "error_message (fst (process_parts_background late_failing_env (drop 2 twelve) 2
                            (resumed_twelve, []))) = Some CheckpointWriteFailed"
    "\<not> is_processing (fst (process_parts_background late_failing_env (drop 2 twelve) 2
                               (resumed_twelve, [])))"
    "processed_count (fst (process_parts_background late_failing_env (drop 2 twelve) 2
                              (resumed_twelve, []))) = processed_count resumed_twelve + 10"
    "length (results (fst (process_parts_background late_failing_env (drop 2 twelve) 2
                             (resumed_twelve, [])))) = 10"
    using t by blast+
  then show ?thesis
    using resumed run(1,2,3) c nostop twelve fails(4) by simp
qed

text \<open>
  Start(0,12) with the checkpoint write after the tenth record failing: the session ends
  with the error message set and \<open>is_processing\<close> cleared, ten results, and records 10 and
  11 never processed.
\<close>

theorem checkpoint_failure_aborts_counterexample:
  "length twelve = 12
   \<and> error_message (fst failing_checkpoint_run) = Some CheckpointWriteFailed
   \<and> \<not> is_processing (fst failing_checkpoint_run)
   \<and> length (results (fst failing_checkpoint_run)) = 10
   \<and> processed_count (fst failing_checkpoint_run) = 10"
  by code_simp

section \<open>Resume\<close>

text \<open>
  In a run that starts from a processed count of 0 and an empty log, as every Start sets
  them, the log is as long as the processed count says in every state observed while an
  event is sent and at the end, whatever the lookups, the Stop and the write failures.
\<close>

lemma process_one_log:
  assumes "processed_count st = i" "results st = res" "length res = i" "list_all log_ok tr"
  shows "processed_count (fst (snd (process_one env s i p res (st, tr)))) = i + 1
       \<and> length (results (fst (snd (process_one env s i p res (st, tr))))) = i + 1
       \<and> (\<forall>res'. fst (process_one env s i p res (st, tr)) = Inr res' \<longrightarrow>
             res' = results (fst (snd (process_one env s i p res (st, tr)))))
       \<and> list_all log_ok (snd (snd (process_one env s i p res (st, tr))))"
  using assms
  by (auto simp: process_one_def Let_def await_def search_rockauto_def save_session_def
      stop_request_def next_count_def log_ok_def
      split: option.splits driver_status.splits if_splits sum.splits)


lemma batch_loop_log:
  "processed_count st = i \<Longrightarrow> results st = res \<Longrightarrow> length res = i \<Longrightarrow> list_all log_ok tr \<Longrightarrow>
   length (results (fst (snd (batch_loop env s i ps res (st, tr)))))
     = processed_count (fst (snd (batch_loop env s i ps res (st, tr))))
   \<and> (\<forall>res'. fst (batch_loop env s i ps res (st, tr)) = Inr res' \<longrightarrow>
         res' = results (fst (snd (batch_loop env s i ps res (st, tr)))))
   \<and> list_all log_ok (snd (snd (batch_loop env s i ps res (st, tr))))"
proof (induction ps arbitrary: i res st tr)
  case Nil
  then show ?case by simp
next
  case (Cons p rest)
  show ?case
  proof (cases "should_stop st")
    case True
    then show ?thesis
      using Cons.prems by simp
  next
    case False
    obtain r st1 tr1 where one: "process_one env s i p res (st, tr) = (r, (st1, tr1))"
      by (metis prod.exhaust)
    note l = process_one_log [OF Cons.prems, of env s p, unfolded one fst_conv snd_conv]
    show ?thesis
    proof (cases r)
      case (Inl e)
      then show ?thesis
        using False one l by simp
    next
      case (Inr res1)
      have pre: "processed_count st1 = i + 1" "results st1 = res1" "length res1 = i + 1"
        "list_all log_ok tr1"
        using l Inr by auto
      have "batch_loop env s i (p # rest) res (st, tr) = batch_loop env s (i + 1) rest res1 (st1, tr1)"
        using False one Inr by simp
      then show ?thesis
        using Cons.IH [OF pre] by (simp del: batch_loop.simps)
    qed
  qed
qed

lemma save_to_history_Inr:
  "save_to_history env st = Inr st' \<Longrightarrow> st' = st\<lparr>history_files := history_files st'\<rparr>"
  by (auto simp: save_to_history_def split: option.splits if_splits)

lemma fresh_run_log_length:
  assumes "processed_count st = 0" "results st = []"
  shows "length (results (fst (process_parts_background env parts s (st, []))))
           = processed_count (fst (process_parts_background env parts s (st, [])))
         \<and> list_all log_ok (snd (process_parts_background env parts s (st, [])))"
proof (cases "detector st = None")
  case True
  then show ?thesis
    using assms by (simp add: process_parts_background_def failed_def Let_def log_ok_def)
next
  case no: False
  then obtain d where False: "detector st = Some d"
    by auto
  obtain r st1 tr1 where loop: "batch_loop env s 0 parts [] (st, []) = (r, (st1, tr1))"
    by (metis prod.exhaust)
  have "list_all log_ok []" "length ([] :: enriched list) = 0"
    by simp_all
  note l = batch_loop_log [OF assms(1,2) this(2,1), of env s parts, unfolded loop fst_conv snd_conv]
  show ?thesis
  proof (cases r)
    case (Inl e)
    then have "process_parts_background env parts s (st, []) = failed e (st1, tr1)"
      using False loop by (simp add: process_parts_background_def process_parts_batch_async_def)
    then show ?thesis
      using l by (simp add: failed_def Let_def log_ok_def)
  next
    case (Inr res)
    then have res: "res = results st1"
      using l by simp
    let ?c = "(close_browser st1)\<lparr>results := res, is_processing := False\<rparr>"
    have c: "length (results ?c) = processed_count ?c"
      using l res by (simp add: close_browser_fields)
    have batch: "process_parts_batch_async env parts (length parts) s (st, [])
        = (Inr res, (close_browser st1, tr1))"
      using loop Inr by (simp add: process_parts_batch_async_def)
    show ?thesis
    proof (cases "should_stop st1")
      case True
      then have "process_parts_background env parts s (st, []) = (?c, tr1)"
        using False batch by (simp add: process_parts_background_def close_browser_fields)
      then show ?thesis
        using c l by simp
    next
      case running: False
      show ?thesis
      proof (cases "save_session env ?c")
        case (Inl e)
        then have "process_parts_background env parts s (st, []) = failed e (?c, tr1)"
          using False batch running
          by (simp add: process_parts_background_def close_browser_fields Let_def)
        then show ?thesis
          using c l by (simp add: failed_def Let_def log_ok_def)
      next
        case saved: (Inr st2)
        have c2: "length (results st2) = processed_count st2"
          using c by (subst (1 2) save_session_Inr [OF saved]) simp
        show ?thesis
        proof (cases "save_to_history env st2")
          case (Inl e)
          then have "process_parts_background env parts s (st, []) = failed e (st2, tr1)"
            using False batch running saved
            by (simp add: process_parts_background_def close_browser_fields Let_def)
          then show ?thesis
            using c2 l by (simp add: failed_def Let_def log_ok_def)
        next
          case (Inr st3)
          have c3: "length (results st3) = processed_count st3"
            using c2 by (subst (1 2) save_to_history_Inr [OF Inr]) simp
          have "process_parts_background env parts s (st, [])
              = (st3, tr1 @ [(CompletedEvent (length res), st3)])"
            using False batch running saved Inr
            by (simp add: process_parts_background_def close_browser_fields Let_def)
          then show ?thesis
            using c3 l by (simp add: log_ok_def)
        qed
      qed
    qed
  qed
qed

text \<open>
  Resume of a saved session with records left takes up the saved log, leaderboard and
  processed count \<open>k\<close>, and creates the task over the records from \<open>s + k\<close> to the end of
  the range.
\<close>

lemma resume_session_continues:
  assumes "\<not> is_processing st" "map_of (session_files st) sid = Some ck"
    and "ck_parts_data ck = Some pd"
    and "0 < ck_end_index ck - ck_start_index ck - int (ck_processed_count ck)"
  shows "fst (resume_session sid st)
           = Inr (slice (ck_start_index ck + int (ck_processed_count ck)) (ck_end_index ck)
                    (automotive pd),
                  ck_start_index ck + int (ck_processed_count ck))
         \<and> processed_count (snd (resume_session sid st)) = ck_processed_count ck
         \<and> results (snd (resume_session sid st)) = ck_results ck
         \<and> make_leaderboard (snd (resume_session sid st)) = ck_make_leaderboard ck"
  using assms by (simp add: resume_session_def load_session_def Let_def)

text \<open>
  C1. A session over \<open>[0,4)\<close> stopped after 2 records and resumed: the resumed worker
  begins at absolute index 2 and \<open>processed_count\<close> goes on from 2 to 4, but the result
  log after the resume holds only the two records processed after it, so its first 2
  entries are not the pre-stop log.
\<close>

theorem resume_drops_earlier_results:
  "map part_number (results (fst stopped_run)) = [''A'', ''B'']
   \<and> processed_count (fst stopped_run) = 2
   \<and> fst (resume_session ''s1'' (fst stopped_run)) = Inr (drop 2 four, 2)
   \<and> processed_count (fst resumed_run) = 4
   \<and> map part_number (results (fst resumed_run)) = [''C'', ''D'']
   \<and> take 2 (results (fst resumed_run)) \<noteq> results (fst stopped_run)"
  by code_simp

text \<open>
  C2. In the same resumed session, while the result event of the first resumed record is
  being sent, \<open>processed_count\<close> is 3 and the result log has length 1; at the end they are
  4 and 2. Before the resume, the log of the stopped session has length 2 and
  \<open>processed_count\<close> is 2.
\<close>

theorem resume_breaks_log_length:
  "processed_count (fst stopped_run) = 2 \<and> length (results (fst stopped_run)) = 2
   \<and> fst (snd resumed_run ! 1) = ResultEvent 2 (enrich (four ! 2) (Some [''Ford'']))
   \<and> processed_count (snd (snd resumed_run ! 1)) = 3
   \<and> length (results (snd (snd resumed_run ! 1))) = 1
   \<and> processed_count (fst resumed_run) = 4
   \<and> length (results (fst resumed_run)) = 2"
  by code_simp

section \<open>The fits clause\<close>

lemma matches_fits_head:
  assumes "matches fits_rx (prev, rest, caps) \<noteq> []"
  shows "\<exists>cs. rest = CHR ''f'' # cs \<or> rest = CHR ''c'' # cs"
proof (cases rest)
  case Nil
  then show ?thesis
    using assms by (simp add: fits_rx_def)
next
  case (Cons c cs)
  have "c = CHR ''f'' \<or> c = CHR ''c''"
  proof (rule ccontr)
    assume "\<not> (c = CHR ''f'' \<or> c = CHR ''c'')"
    then have "matches fits_rx (prev, c # cs, caps) = []"
      by (simp add: fits_rx_def)
    then show False
      using assms Cons by simp
  qed
  then show ?thesis
    using Cons by auto
qed

lemma search_from_fits_None:
  "CHR ''f'' \<notin> set s \<Longrightarrow> CHR ''c'' \<notin> set s \<Longrightarrow> search_from fits_rx prev s = None"
proof (induction s arbitrary: prev)
  case Nil
  have "matches fits_rx (prev, [], []) = []"
    using matches_fits_head [of prev "[]" "[]"] by auto
  then show ?case by simp
next
  case (Cons c cs)
  have "matches fits_rx (prev, c # cs, []) = []"
    using matches_fits_head [of prev "c # cs" "[]"] Cons.prems by auto
  then show ?case
    using Cons by simp
qed

lemma upper_has_no_lower: "c \<in> set (upper s) \<Longrightarrow> \<not> is_lower c"
  by (auto simp: upper_def to_upper_not_lower)

lemma fits_search_upper: "re_search fits_rx (upper s) = None"
proof -
  have "is_lower CHR ''f''" "is_lower CHR ''c''"
    by (simp_all add: is_lower_def code_def)
  then have "CHR ''f'' \<notin> set (upper s)" "CHR ''c'' \<notin> set (upper s)"
    using upper_has_no_lower by blast+
  then show ?thesis
    by (simp add: re_search_def search_from_fits_None)
qed

text \<open>
  C3. The clause pattern \<open>(?:fits?|compatible|for)[:.\s]*([A-Z\s,]+)\<close> is searched in the
  upper-cased cell text, where its lower-case keywords cannot occur: for every cell text the
  search finds nothing, so the clause adds no make. The cell \<open>Fits:FORD,HONDA\<close> yields no
  make at all, alone or as the only cell of a popup, although the same pattern on the text
  \<open>fits:FORD,HONDA\<close> captures \<open>FORD,HONDA\<close>, whose tokens \<open>FORD\<close> and \<open>HONDA\<close> are
  both in the dictionary.
\<close>

theorem fits_clause_never_matches:
  "re_search fits_rx (upper cell_text) = None
   \<and> extract_from_cell ''Fits:FORD,HONDA'' = []
   \<and> extract_makes_from_popup (Some fits_popup) = []
   \<and> re_search fits_rx ''fits:FORD,HONDA'' = Some [''FORD,HONDA'']
   \<and> re_findall token_rx ''FORD,HONDA'' = [[''FORD''], [''HONDA'']]
   \<and> is_known_make ''FORD'' \<and> is_known_make ''HONDA''"
proof -
  have "extract_from_cell ''Fits:FORD,HONDA'' = []"
    by code_simp
  moreover have "extract_makes_from_popup (Some fits_popup) = []"
    by code_simp
  moreover have "re_search fits_rx ''fits:FORD,HONDA'' = Some [''FORD,HONDA'']"
    by code_simp
  moreover have "re_findall token_rx ''FORD,HONDA'' = [[''FORD''], [''HONDA'']]"
    by code_simp
  moreover have "is_known_make ''FORD''" "is_known_make ''HONDA''"
    by code_simp+
  ultimately show ?thesis
    using fits_search_upper by simp
qed

end
